theory Spec2Isabelle
  imports Main "HOL-Library.Char_ord" "HOL-Library.AList" "HOL-Library.Sublist"
    "HOL-Library.Multiset"
begin

section \<open>Go strings and the string primitives the code calls\<close>

text \<open>
  A Go string is a sequence of bytes, so it is a \<open>string\<close> (a list of 8-bit characters).
  The functions of package \<open>strings\<close> that the code calls with a one-byte separator are
  written out here for that separator: \<open>Split\<close>, \<open>SplitN\<close> with limit 2, \<open>Count\<close>
  (here \<open>strings_Count\<close>),
  \<open>Contains\<close>, \<open>LastIndex\<close>, \<open>HasPrefix\<close>, \<open>TrimSuffix\<close>, \<open>Join\<close>, and
  \<open>regexp.QuoteMeta\<close>.
\<close>

fun Split :: "string \<Rightarrow> char \<Rightarrow> string list" where
  "Split [] sep = [[]]"
| "Split (c # cs) sep =
     (if c = sep then [] # Split cs sep
      else (case Split cs sep of x # xs \<Rightarrow> (c # x) # xs | [] \<Rightarrow> [[c]]))"

definition SplitN2 :: "string \<Rightarrow> char \<Rightarrow> string list" where
  "SplitN2 s sep =
     (if sep \<in> set s
      then [takeWhile (\<lambda>c. c \<noteq> sep) s, tl (dropWhile (\<lambda>c. c \<noteq> sep) s)]
      else [s])"

definition strings_Count :: "string \<Rightarrow> char \<Rightarrow> nat" where
  "strings_Count s c = length (filter (\<lambda>x. x = c) s)"

definition Contains :: "string \<Rightarrow> char \<Rightarrow> bool" where
  "Contains s c = (c \<in> set s)"

definition LastIndex :: "string \<Rightarrow> char \<Rightarrow> int" where
  "LastIndex s c =
     (if c \<in> set s
      then int (length s) - 1 - int (length (takeWhile (\<lambda>x. x \<noteq> c) (rev s)))
      else - 1)"

fun HasPrefix :: "string \<Rightarrow> string \<Rightarrow> bool" where
  "HasPrefix s [] = True"
| "HasPrefix [] (c # cs) = False"
| "HasPrefix (x # xs) (c # cs) = (x = c \<and> HasPrefix xs cs)"

definition HasSuffix :: "string \<Rightarrow> string \<Rightarrow> bool" where
  "HasSuffix s suf = HasPrefix (rev s) (rev suf)"

definition TrimSuffix :: "string \<Rightarrow> string \<Rightarrow> string" where
  "TrimSuffix s suf =
     (if HasSuffix s suf then take (length s - length suf) s else s)"

fun Join :: "string list \<Rightarrow> string \<Rightarrow> string" where
  "Join [] sep = []"
| "Join [x] sep = x"
| "Join (x # y # ys) sep = x @ sep @ Join (y # ys) sep"

definition backslash :: char where
  "backslash = CHR 0x5C"

definition specialBytes :: string where
  "specialBytes = backslash # ''.+*?()|[]{}^$''"

definition QuoteMeta :: "string \<Rightarrow> string" where
  "QuoteMeta s = concat (map (\<lambda>c. if c \<in> set specialBytes then [backslash, c] else [c]) s)"

text \<open>
  The functions of the Go standard library whose result depends on Unicode tables or on
  the URL grammar are parameters of the model: \<open>strings.ToValidUTF8\<close>,
  \<open>strings.TrimSpace\<close>, \<open>strings.ToLower\<close> and \<open>url.Parse\<close> (\<open>None\<close> when it
  returns an error). Every theorem below holds for every choice of these functions.
\<close>

record URL =
  Scheme :: string
  Host :: string
  Path :: string
  RawQuery :: string

record Lib =
  ToValidUTF8 :: "string \<Rightarrow> string \<Rightarrow> string"
  TrimSpace :: "string \<Rightarrow> string"
  ToLower :: "string \<Rightarrow> string"
  url_Parse :: "string \<Rightarrow> URL option"

section \<open>Helper functions of \<open>uro.go\<close>\<close>

text \<open>
  A Go \<open>map[string]string\<close> is an association list with distinct keys; the order of the
  list stands for the order in which \<open>range\<close> visits the map, which Go leaves open.
\<close>

type_synonym ParamSet = "(string \<times> string) list"

fun paramsToMap_loop :: "string list \<Rightarrow> ParamSet \<Rightarrow> ParamSet" where
  "paramsToMap_loop [] result = result"
| "paramsToMap_loop (pair # pairs) result =
     (let parts = SplitN2 pair CHR ''=''
      in if length parts = 2 \<and> parts ! 0 \<noteq> []
         then paramsToMap_loop pairs (AList.update (parts ! 0) (parts ! 1) result)
         else if length parts = 1 \<and> parts ! 0 \<noteq> []
         then paramsToMap_loop pairs (AList.update (parts ! 0) [] result)
         else paramsToMap_loop pairs result)"

definition paramsToMap :: "string \<Rightarrow> ParamSet" where
  "paramsToMap query =
     (if query = [] then [] else paramsToMap_loop (Split query CHR ''&'') [])"

definition mapToQuery :: "ParamSet \<Rightarrow> string" where
  "mapToQuery params =
     (if length params = 0 then []
      else ''?'' @ Join (map (\<lambda>(k, v). k @ ''='' @ v) params) ''&'')"

definition compareParams :: "ParamSet list \<Rightarrow> ParamSet \<Rightarrow> bool" where
  "compareParams existing new =
     (let seen = foldl (\<lambda>seen params. foldl (\<lambda>s key. insert key s) seen (map fst params))
                   {} existing
      in list_ex (\<lambda>key. key \<notin> seen) (map fst new))"

text \<open>
  \<open>cleanArgs\<close> collects the names as the keys of a Go map and returns them in the
  order of \<open>range\<close>, which the language leaves unspecified. The model returns them in
  the order of first insertion, one of the possible orders.
\<close>

definition addArg :: "string \<Rightarrow> string list \<Rightarrow> string list" where
  "addArg k result = (if k \<in> set result then result else result @ [k])"

fun cleanArgs_parts :: "Lib \<Rightarrow> string list \<Rightarrow> string list \<Rightarrow> string list" where
  "cleanArgs_parts L [] result = result"
| "cleanArgs_parts L (part # parts) result =
     (let part' = TrimSpace L (ToLower L part)
      in if part' \<noteq> [] then cleanArgs_parts L parts (addArg part' result)
         else cleanArgs_parts L parts result)"

fun cleanArgs_loop :: "Lib \<Rightarrow> string list \<Rightarrow> string list \<Rightarrow> string list" where
  "cleanArgs_loop L [] result = result"
| "cleanArgs_loop L (arg # args) result =
     (let arg' = TrimSpace L arg
      in if arg' = [] then cleanArgs_loop L args result
         else if Contains arg' CHR '',''
         then cleanArgs_loop L args (cleanArgs_parts L (Split arg' CHR '','') result)
         else cleanArgs_loop L args (addArg (ToLower L arg') result))"

definition cleanArgs :: "Lib \<Rightarrow> string list \<Rightarrow> string list" where
  "cleanArgs L args = (if length args = 0 then [] else cleanArgs_loop L args [])"

definition lastPart :: "string \<Rightarrow> string" where
  "lastPart path =
     (let lastSlash = LastIndex path CHR ''/''
      in if 0 \<le> lastSlash then drop (nat (lastSlash + 1)) path else path)"

definition hasExtension :: "string \<Rightarrow> bool" where
  "hasExtension path = Contains (lastPart path) CHR ''.''"

definition getExtension :: "Lib \<Rightarrow> string \<Rightarrow> string" where
  "getExtension L path =
     (let lp = lastPart path; lastDot = LastIndex lp CHR ''.''
      in if lastDot < 0 then [] else ToLower L (drop (nat (lastDot + 1)) lp))"

definition isDigitChar :: "char \<Rightarrow> bool" where
  "isDigitChar c = (\<not> (c < CHR ''0'' \<or> CHR ''9'' < c))"

definition isDigit :: "string \<Rightarrow> bool" where
  "isDigit s = (if s = [] then False else list_all isDigitChar s)"

definition normalizeFilterName :: "string \<Rightarrow> string" where
  "normalizeFilterName name =
     (if name = ''hasparam'' then ''hasparams''
      else if name = ''noparam'' then ''noparams''
      else if name = ''hasexts'' then ''hasext''
      else if name = ''noexts'' then ''noext''
      else name)"

definition isValidFilter :: "string \<Rightarrow> bool" where
  "isValidFilter name =
     (name \<in> set [''hasext'', ''noext'', ''hasparams'', ''noparams'', ''whitelist'',
                    ''blacklist'', ''removecontent'', ''vuln''])"

definition defaultBlacklist :: "string list" where
  "defaultBlacklist =
     [''css'', ''png'', ''jpg'', ''jpeg'', ''svg'', ''ico'', ''webp'', ''scss'',
      ''tif'', ''tiff'', ''ttf'', ''otf'', ''woff'', ''woff2'', ''gif'',
      ''pdf'', ''bmp'', ''eot'', ''mp3'', ''mp4'', ''avi'']"

definition vulnParams :: "string list" where
  "vulnParams = [
    ''file'', ''document'', ''folder'', ''root'', ''path'', ''pg'', ''style'', ''pdf'',
    ''template'', ''php_path'', ''doc'', ''page'', ''name'', ''cat'', ''dir'', ''action'',
    ''board'', ''date'', ''detail'', ''download'', ''prefix'', ''include'', ''inc'',
    ''locate'', ''show'', ''site'', ''type'', ''view'', ''content'', ''layout'', ''mod'',
    ''conf'', ''daemon'', ''upload'', ''log'', ''ip'', ''cli'', ''cmd'', ''exec'',
    ''command'', ''execute'', ''ping'', ''query'', ''jump'', ''code'', ''reg'', ''do'',
    ''func'', ''arg'', ''option'', ''load'', ''process'', ''step'', ''read'', ''function'',
    ''req'', ''feature'', ''exe'', ''module'', ''payload'', ''run'', ''print'',
    ''callback'', ''checkout'', ''checkout_url'', ''continue'', ''data'', ''dest'',
    ''destination'', ''domain'', ''feed'', ''file_name'', ''file_url'', ''folder_url'',
    ''forward'', ''from_url'', ''go'', ''goto'', ''host'', ''html'', ''image_url'',
    ''img_url'', ''load_file'', ''load_url'', ''login_url'', ''logout'', ''navigation'',
    ''next'', ''next_page'', ''Open'', ''out'', ''page_url'', ''port'', ''redir'',
    ''redirect'', ''redirect_to'', ''redirect_uri'', ''redirect_url'', ''reference'',
    ''return'', ''return_path'', ''return_to'', ''returnTo'', ''return_url'', ''rt'',
    ''rurl'', ''target'', ''to'', ''uri'', ''url'', ''val'', ''validate'', ''window'',
    ''q'', ''s'', ''search'', ''lang'', ''keyword'', ''keywords'', ''year'', ''email'',
    ''p'', ''jsonp'', ''api_key'', ''api'', ''password'', ''emailto'', ''token'',
    ''username'', ''csrf_token'', ''unsubscribe_token'', ''id'', ''item'', ''page_id'',
    ''month'', ''immagine'', ''list_type'', ''terms'', ''categoryid'', ''key'', ''l'',
    ''begindate'', ''enddate'', ''select'', ''report'', ''role'', ''update'', ''user'',
    ''sort'', ''where'', ''params'', ''row'', ''table'', ''from'', ''sel'', ''results'',
    ''sleep'', ''fetch'', ''order'', ''column'', ''field'', ''delete'', ''string'',
    ''number'', ''filter'', ''access'', ''admin'', ''dbg'', ''debug'', ''edit'', ''grant'',
    ''test'', ''alter'', ''clone'', ''create'', ''disable'', ''enable'', ''make'',
    ''modify'', ''rename'', ''reset'', ''shell'', ''toggle'', ''adm'', ''cfg'', ''open'',
    ''img'', ''filename'', ''preview'', ''activity''
   ]"

section \<open>The two regular expressions\<close>

text \<open>
  \<open>reInt\<close> is \<^verbatim>\<open>/\d+([?/]|$)\<close> and is only asked whether it matches somewhere
  (\<open>MatchString\<close>). \<open>reContent\<close> is
  \<^verbatim>\<open>(post|blog)s?|docs|support/|/(\d{4}|pages?)/\d+/\<close> and is asked for the
  leftmost match (\<open>FindStringIndex\<close>). Both are written as scanners over the bytes of
  the string; \<open>\d\<close> is an ASCII digit. The lemmas of the next section relate the
  scanners to the languages of the two expressions.
\<close>

definition reInt_at :: "string \<Rightarrow> bool" where
  "reInt_at s =
     (case s of
        [] \<Rightarrow> False
      | c # r \<Rightarrow>
          c = CHR ''/'' \<and> takeWhile isDigitChar r \<noteq> [] \<and>
          (case dropWhile isDigitChar r of
             [] \<Rightarrow> True
           | d # _ \<Rightarrow> d = CHR ''?'' \<or> d = CHR ''/''))"

fun reInt_MatchString :: "string \<Rightarrow> bool" where
  "reInt_MatchString [] = False"
| "reInt_MatchString (c # cs) = (reInt_at (c # cs) \<or> reInt_MatchString cs)"

definition yearOrPage :: "string \<Rightarrow> nat option" where
  "yearOrPage r =
     (if 4 \<le> length r \<and> list_all isDigitChar (take 4 r) then Some 4
      else if HasPrefix r ''pages'' then Some 5
      else if HasPrefix r ''page'' then Some 4
      else None)"

definition reContent_at :: "string \<Rightarrow> nat option" where
  "reContent_at s =
     (if HasPrefix s ''post'' \<or> HasPrefix s ''blog''
      then (if HasPrefix (drop 4 s) ''s'' then Some 5 else Some 4)
      else if HasPrefix s ''docs'' then Some 4
      else if HasPrefix s ''support/'' then Some 8
      else if HasPrefix s ''/''
      then (case yearOrPage (drop 1 s) of
              None \<Rightarrow> None
            | Some n \<Rightarrow>
                let r = drop (1 + n) s; ds = takeWhile isDigitChar (drop 1 r)
                in if HasPrefix r ''/'' \<and> ds \<noteq> [] \<and>
                      HasPrefix (drop (1 + length ds) r) ''/''
                   then Some (1 + n + 1 + length ds + 1)
                   else None)
      else None)"

fun reContent_from :: "nat \<Rightarrow> string \<Rightarrow> (nat \<times> nat) option" where
  "reContent_from i [] = None"
| "reContent_from i (c # cs) =
     (case reContent_at (c # cs) of
        Some n \<Rightarrow> Some (i, i + n)
      | None \<Rightarrow> reContent_from (i + 1) cs)"

definition reContent_FindStringIndex :: "string \<Rightarrow> (nat \<times> nat) option" where
  "reContent_FindStringIndex s = reContent_from 0 s"

section \<open>The processor of \<open>uro.go\<close>\<close>

record Options =
  Whitelist :: "string list"
  Blacklist :: "string list"
  Filters :: "string list"
  KeepSlash :: bool

text \<open>
  \<open>urlMap\<close> is host \<open>\<rightarrow>\<close> path \<open>\<rightarrow>\<close> list of parameter sets. The two maps to
  \<open>struct{}\<close> are only tested for membership and added to, so they are sets.
\<close>

type_synonym PathMap = "(string \<times> ParamSet list) list"

record Processor =
  opts :: Options
  urlMap :: "(string \<times> PathMap) list"
  paramsSeen :: "string set"
  patternsSeen :: "string set"
  contentPrefixes :: "string list"
  extList :: "string list"
  filters :: "string list"
  strict :: bool
  keepSlash :: bool

text \<open>Reading a Go map at a key it does not hold gives the zero value (a nil map or slice).\<close>

definition hostPaths :: "(string \<times> PathMap) list \<Rightarrow> string \<Rightarrow> PathMap" where
  "hostPaths m host = (case map_of m host of None \<Rightarrow> [] | Some paths \<Rightarrow> paths)"

definition setPath ::
  "(string \<times> PathMap) list \<Rightarrow> string \<Rightarrow> string \<Rightarrow> ParamSet list \<Rightarrow> (string \<times> PathMap) list" where
  "setPath m host path v = AList.update host (AList.update path v (hostPaths m host)) m"

definition hostPaths_path ::
  "(string \<times> PathMap) list \<Rightarrow> string \<Rightarrow> string \<Rightarrow> ParamSet list" where
  "hostPaths_path m host path =
     (case map_of (hostPaths m host) path of None \<Rightarrow> [] | Some l \<Rightarrow> l)"

definition checkWhitelist :: "Lib \<Rightarrow> Processor \<Rightarrow> string \<Rightarrow> bool" where
  "checkWhitelist L p path =
     (let ext = getExtension L path
      in if ext = [] then \<not> strict p
         else list_ex (\<lambda>e. ext = e) (extList p))"

definition checkBlacklist :: "Lib \<Rightarrow> Processor \<Rightarrow> string \<Rightarrow> bool" where
  "checkBlacklist L p path =
     (let ext = getExtension L path
      in if ext = [] then True
         else if list_ex (\<lambda>e. ext = e) (extList p) then False
         else True)"

definition checkContent :: "Processor \<Rightarrow> string \<Rightarrow> bool \<times> Processor" where
  "checkContent p path =
     (if list_ex (\<lambda>part. 3 < strings_Count part CHR ''-'') (Split path CHR ''/'') then (False, p)
      else if list_ex (\<lambda>pre. HasPrefix path pre) (contentPrefixes p) then (False, p)
      else (case reContent_FindStringIndex path of
              Some match \<Rightarrow>
                (True, p\<lparr>contentPrefixes := contentPrefixes p @ [take (snd match) path]\<rparr>)
            | None \<Rightarrow> (True, p)))"

definition checkVuln :: "ParamSet \<Rightarrow> bool" where
  "checkVuln params = list_ex (\<lambda>param. param \<in> set vulnParams) (map fst params)"

definition applyFilter ::
  "Lib \<Rightarrow> Processor \<Rightarrow> string \<Rightarrow> string \<Rightarrow> ParamSet \<Rightarrow> bool \<times> Processor" where
  "applyFilter L p name path params =
     (if name = ''hasext'' then (hasExtension path, p)
      else if name = ''noext'' then (\<not> hasExtension path, p)
      else if name = ''hasparams'' then (0 < length params, p)
      else if name = ''noparams'' then (length params = 0, p)
      else if name = ''whitelist'' then (checkWhitelist L p path, p)
      else if name = ''blacklist'' then (checkBlacklist L p path, p)
      else if name = ''removecontent'' then checkContent p path
      else if name = ''vuln'' then (checkVuln params, p)
      else (True, p))"

fun applyFilters_loop ::
  "Lib \<Rightarrow> string list \<Rightarrow> Processor \<Rightarrow> string \<Rightarrow> ParamSet \<Rightarrow> bool \<times> Processor" where
  "applyFilters_loop L [] p path params = (True, p)"
| "applyFilters_loop L (f # fs) p path params =
     (case applyFilter L p f path params of
        (False, p') \<Rightarrow> (False, p')
      | (True, p') \<Rightarrow> applyFilters_loop L fs p' path params)"

definition applyFilters :: "Lib \<Rightarrow> Processor \<Rightarrow> string \<Rightarrow> ParamSet \<Rightarrow> bool \<times> Processor" where
  "applyFilters L p path params = applyFilters_loop L (filters p) p path params"

definition digitToken :: string where
  "digitToken = backslash # ''d+''"

fun createPattern_loop ::
  "string list \<Rightarrow> nat \<Rightarrow> string list \<Rightarrow> nat \<Rightarrow> string list \<times> nat" where
  "createPattern_loop [] i newParts lastIndex = (newParts, lastIndex)"
| "createPattern_loop (part # parts) i newParts lastIndex =
     (if isDigit part
      then createPattern_loop parts (i + 1) (newParts @ [digitToken]) i
      else createPattern_loop parts (i + 1) (newParts @ [QuoteMeta part]) lastIndex)"

definition createPattern :: "string \<Rightarrow> string" where
  "createPattern path =
     (case createPattern_loop (Split path CHR ''/'') 0 [] 0 of
        (newParts, lastIndex) \<Rightarrow> Join (take (lastIndex + 1) newParts) ''/'')"

definition addNewPath :: "Processor \<Rightarrow> string \<Rightarrow> string \<Rightarrow> ParamSet \<Rightarrow> Processor" where
  "addNewPath p host path params =
     (let p' = p\<lparr>urlMap := setPath (urlMap p) host path []\<rparr>
      in if 0 < length params
         then p'\<lparr>urlMap := setPath (urlMap p') host path
                  (hostPaths_path (urlMap p') host path @ [params])\<rparr>
         else p')"

definition processURL :: "Lib \<Rightarrow> Processor \<Rightarrow> URL \<Rightarrow> bool \<times> Processor" where
  "processURL L p u =
     (let host = Scheme u @ ''://'' @ Host u;
          path = Path u;
          params = paramsToMap (RawQuery u);
          newParams = filter (\<lambda>param. param \<notin> paramsSeen p) (map fst params)
      in case applyFilters L p path params of
           (False, p1) \<Rightarrow> (False, p1)
         | (True, p1) \<Rightarrow>
             let p2 = p1\<lparr>paramsSeen := foldl (\<lambda>s param. insert param s) (paramsSeen p1) newParams\<rparr>;
                 p3 = (if map_of (urlMap p2) host = None
                       then p2\<lparr>urlMap := AList.update host [] (urlMap p2)\<rparr> else p2)
             in case map_of (hostPaths (urlMap p3) host) path of
                  None \<Rightarrow>
                    if reInt_MatchString path
                    then (let pattern = createPattern path
                          in if pattern \<in> patternsSeen p3 then (False, p3)
                             else (True, addNewPath
                                     (p3\<lparr>patternsSeen := insert pattern (patternsSeen p3)\<rparr>)
                                     host path params))
                    else (True, addNewPath p3 host path params)
                | Some existing \<Rightarrow>
                    if 0 < length newParams
                    then (True, p3\<lparr>urlMap := setPath (urlMap p3) host path (existing @ [params])\<rparr>)
                    else if 0 < length params \<and> compareParams existing params
                    then (True, p3\<lparr>urlMap := setPath (urlMap p3) host path (existing @ [params])\<rparr>)
                    else (False, p3))"

definition Process :: "Lib \<Rightarrow> Processor \<Rightarrow> string \<Rightarrow> bool \<times> Processor" where
  "Process L p rawURL =
     (let r1 = ToValidUTF8 L rawURL [];
          r2 = TrimSpace L r1;
          r3 = (if \<not> keepSlash p then TrimSuffix r2 ''/'' else r2)
      in if r3 = [] then (False, p)
         else (case url_Parse L r3 of
                 None \<Rightarrow> (False, p)
               | Some u \<Rightarrow> if Host u = [] then (False, p) else processURL L p u))"

text \<open>\<open>ProcessReader\<close> over the lines its scanner yields.\<close>

fun ProcessReader_loop :: "Lib \<Rightarrow> Processor \<Rightarrow> string list \<Rightarrow> nat \<Rightarrow> nat \<times> Processor" where
  "ProcessReader_loop L p [] cnt = (cnt, p)"
| "ProcessReader_loop L p (line # lines) cnt =
     (case Process L p line of
        (True, p') \<Rightarrow> ProcessReader_loop L p' lines (cnt + 1)
      | (False, p') \<Rightarrow> ProcessReader_loop L p' lines cnt)"

definition ProcessReader :: "Lib \<Rightarrow> Processor \<Rightarrow> string list \<Rightarrow> nat \<times> Processor" where
  "ProcessReader L p lines = ProcessReader_loop L p lines 0"

definition Reset :: "Processor \<Rightarrow> Processor" where
  "Reset p = p\<lparr>urlMap := [], paramsSeen := {}, patternsSeen := {}, contentPrefixes := []\<rparr>"

fun userFilters :: "string list \<Rightarrow> string list \<Rightarrow> string list" where
  "userFilters [] activeFilters = activeFilters"
| "userFilters (f # fs) activeFilters =
     (if f = ''keepcontent'' \<or> f = ''keepslash'' \<or> f = ''allexts''
      then userFilters fs activeFilters
      else (let normalized = normalizeFilterName f
            in if isValidFilter normalized
               then userFilters fs (activeFilters @ [normalized])
               else userFilters fs activeFilters))"

definition setupFilters :: "Lib \<Rightarrow> Processor \<Rightarrow> Processor" where
  "setupFilters L p =
     (let fs = cleanArgs L (Filters (opts p));
          keepContent = list_ex (\<lambda>f. f = ''keepcontent'') fs;
          allExts = list_ex (\<lambda>f. f = ''allexts'') fs;
          p1 = (if list_ex (\<lambda>f. f = ''keepslash'') fs then p\<lparr>keepSlash := True\<rparr> else p);
          p2 = (if KeepSlash (opts p1) then p1\<lparr>keepSlash := True\<rparr> else p1);
          a1 = (if \<not> keepContent then [''removecontent''] else []);
          a2 = (if \<not> allExts
                then (if 0 < length (Whitelist (opts p2)) then a1 @ [''whitelist'']
                      else a1 @ [''blacklist''])
                else a1);
          p3 = (if \<not> allExts
                then (if 0 < length (Whitelist (opts p2))
                      then p2\<lparr>extList := cleanArgs L (Whitelist (opts p2))\<rparr>
                      else if 0 < length (Blacklist (opts p2))
                      then p2\<lparr>extList := cleanArgs L (Blacklist (opts p2))\<rparr>
                      else p2\<lparr>extList := defaultBlacklist\<rparr>)
                else p2);
          p4 = p3\<lparr>filters := userFilters fs a2\<rparr>
      in if list_ex (\<lambda>f. f = ''hasext'' \<or> f = ''noext'') fs then p4\<lparr>strict := True\<rparr> else p4)"

definition NewProcessor :: "Lib \<Rightarrow> Options option \<Rightarrow> Processor" where
  "NewProcessor L options =
     (let opts' = (case options of
                     None \<Rightarrow> \<lparr>Whitelist = [], Blacklist = [], Filters = [], KeepSlash = False\<rparr>
                   | Some x \<Rightarrow> x)
      in setupFilters L
           \<lparr>opts = opts', urlMap = [], paramsSeen = {}, patternsSeen = {},
            contentPrefixes = [], extList = [], filters = [], strict = False,
            keepSlash = False\<rparr>)"

subsection \<open>Enumerating the results\<close>

definition pathResults :: "string \<Rightarrow> string \<Rightarrow> ParamSet list \<Rightarrow> string list" where
  "pathResults host path paramsList =
     (if 0 < length paramsList
      then map (\<lambda>params. host @ path @ mapToQuery params) paramsList
      else [host @ path])"

definition Results :: "Processor \<Rightarrow> string list" where
  "Results p =
     concat (map (\<lambda>(host, paths).
               concat (map (\<lambda>(path, paramsList). pathResults host path paramsList) paths))
            (urlMap p))"

fun Count_paths :: "PathMap \<Rightarrow> nat \<Rightarrow> nat" where
  "Count_paths [] cnt = cnt"
| "Count_paths ((path, paramsList) # paths) cnt =
     (if 0 < length paramsList then Count_paths paths (cnt + length paramsList)
      else Count_paths paths (cnt + 1))"

fun Count_hosts :: "(string \<times> PathMap) list \<Rightarrow> nat \<Rightarrow> nat" where
  "Count_hosts [] cnt = cnt"
| "Count_hosts ((host, paths) # hosts) cnt = Count_hosts hosts (Count_paths paths cnt)"

definition Count :: "Processor \<Rightarrow> nat" where
  "Count p = Count_hosts (urlMap p) 0"

text \<open>
  An \<open>io.Writer\<close> is a state with a write that can fail (\<open>None\<close>);
  \<open>fmt.Fprintln\<close> hands it the string and a newline in one write. \<open>WriteResults\<close>
  returns the first error (\<open>Inl\<close>) and stops there.
\<close>

type_synonym 'w Writer = "'w \<Rightarrow> string \<Rightarrow> 'w option"

datatype WriteError = WriteFailed

definition Fprintln :: "'w Writer \<Rightarrow> 'w \<Rightarrow> string \<Rightarrow> WriteError + 'w" where
  "Fprintln wr w s = (case wr w (s @ [CHR 0x0A]) of None \<Rightarrow> Inl WriteFailed | Some w' \<Rightarrow> Inr w')"

fun Write_params ::
  "'w Writer \<Rightarrow> 'w \<Rightarrow> string \<Rightarrow> string \<Rightarrow> ParamSet list \<Rightarrow> WriteError + 'w" where
  "Write_params wr w host path [] = Inr w"
| "Write_params wr w host path (params # rest) =
     (case Fprintln wr w (host @ path @ mapToQuery params) of
        Inl err \<Rightarrow> Inl err
      | Inr w' \<Rightarrow> Write_params wr w' host path rest)"

fun Write_paths :: "'w Writer \<Rightarrow> 'w \<Rightarrow> string \<Rightarrow> PathMap \<Rightarrow> WriteError + 'w" where
  "Write_paths wr w host [] = Inr w"
| "Write_paths wr w host ((path, paramsList) # paths) =
     (case (if 0 < length paramsList then Write_params wr w host path paramsList
            else Fprintln wr w (host @ path)) of
        Inl err \<Rightarrow> Inl err
      | Inr w' \<Rightarrow> Write_paths wr w' host paths)"

fun Write_hosts :: "'w Writer \<Rightarrow> 'w \<Rightarrow> (string \<times> PathMap) list \<Rightarrow> WriteError + 'w" where
  "Write_hosts wr w [] = Inr w"
| "Write_hosts wr w ((host, paths) # hosts) =
     (case Write_paths wr w host paths of
        Inl err \<Rightarrow> Inl err
      | Inr w' \<Rightarrow> Write_hosts wr w' hosts)"

definition WriteResults :: "'w Writer \<Rightarrow> 'w \<Rightarrow> Processor \<Rightarrow> WriteError + 'w" where
  "WriteResults wr w p = Write_hosts wr w (urlMap p)"

section \<open>The command-line processor (\<open>internal/\<close> and \<open>pkg/urlutil\<close>)\<close>

text \<open>
  \<open>urlutil.ParamsToMap\<close>, \<open>MapToQuery\<close>, \<open>CompareParams\<close>, \<open>HasExtension\<close> and
  \<open>GetExtension\<close>, \<open>filter.NormalizeFilterName\<close> and the processor's
  \<open>createPattern\<close> and \<open>isDigit\<close> have the same text as their namesakes in
  \<open>uro.go\<close>, and \<open>config.DefaultBlacklist\<close> and \<open>config.VulnParams\<close> hold the same
  entries; the definitions above stand for both. What differs is modelled here.
\<close>

fun CleanArgs_parts :: "Lib \<Rightarrow> string list \<Rightarrow> string list \<Rightarrow> string list" where
  "CleanArgs_parts L [] result = result"
| "CleanArgs_parts L (part # parts) result =
     (let part' = TrimSpace L (ToLower L part)
      in if part' \<noteq> [] then CleanArgs_parts L parts (addArg part' result)
         else CleanArgs_parts L parts result)"

fun CleanArgs_loop :: "Lib \<Rightarrow> string list \<Rightarrow> string list \<Rightarrow> string list" where
  "CleanArgs_loop L [] result = result"
| "CleanArgs_loop L (arg # args) result =
     (let arg' = TrimSpace L arg
      in if arg' = [] then CleanArgs_loop L args result
         else if Contains arg' CHR '',''
         then CleanArgs_loop L args (CleanArgs_parts L (Split arg' CHR '','') result)
         else if Contains arg' CHR '' ''
         then CleanArgs_loop L args (CleanArgs_parts L (Split arg' CHR '' '') result)
         else CleanArgs_loop L args (addArg (ToLower L arg') result))"

definition CleanArgs :: "Lib \<Rightarrow> string list \<Rightarrow> string list" where
  "CleanArgs L args = (if length args = 0 then [] else CleanArgs_loop L args [])"

definition NormalizePath :: "Lib \<Rightarrow> string \<Rightarrow> bool \<Rightarrow> string" where
  "NormalizePath L rawURL keepSlash' =
     (let r = TrimSpace L rawURL
      in if \<not> keepSlash' then TrimSuffix r ''/'' else r)"

definition SanitizeUTF8 :: "Lib \<Rightarrow> string \<Rightarrow> string" where
  "SanitizeUTF8 L s = ToValidUTF8 L s []"

definition BuildHost :: "URL \<Rightarrow> string" where
  "BuildHost u = Scheme u @ ''://'' @ Host u"

record Config =
  InputFile :: string
  OutputFile :: string
  Whitelist_cfg :: "string list"
  Blacklist_cfg :: "string list"
  Filters_cfg :: "string list"
  KeepSlash_cfg :: bool

definition GetExtList :: "Config \<Rightarrow> string list" where
  "GetExtList c =
     (if 0 < length (Whitelist_cfg c) then Whitelist_cfg c
      else if 0 < length (Blacklist_cfg c) then Blacklist_cfg c
      else defaultBlacklist)"

definition IsWhitelistMode :: "Config \<Rightarrow> bool" where
  "IsWhitelistMode c = (0 < length (Whitelist_cfg c))"

record Meta =
  Strict :: bool
  ExtList :: "string list"
  VulnParams :: "string list"

datatype Filter =
  HasExtFilter | NoExtFilter | HasParamsFilter | NoParamsFilter
  | WhitelistFilter | BlacklistFilter | RemoveContentFilter | VulnParamFilter

fun Name :: "Filter \<Rightarrow> string" where
  "Name HasExtFilter = ''hasext''"
| "Name NoExtFilter = ''noext''"
| "Name HasParamsFilter = ''hasparams''"
| "Name NoParamsFilter = ''noparams''"
| "Name WhitelistFilter = ''whitelist''"
| "Name BlacklistFilter = ''blacklist''"
| "Name RemoveContentFilter = ''removecontent''"
| "Name VulnParamFilter = ''vuln''"

definition checkExt :: "Lib \<Rightarrow> string \<Rightarrow> string list \<Rightarrow> bool \<times> bool" where
  "checkExt L path extList' =
     (let ext = getExtension L path
      in if ext = [] then (False, False)
         else if list_ex (\<lambda>e. ext = e) extList' then (True, True)
         else (True, False))"

definition WhitelistFilter_Apply :: "Lib \<Rightarrow> string \<Rightarrow> ParamSet \<Rightarrow> Meta \<Rightarrow> bool" where
  "WhitelistFilter_Apply L path params meta =
     (case checkExt L path (ExtList meta) of
        (hasExt, inList) \<Rightarrow> inList \<or> (\<not> Strict meta \<and> \<not> hasExt))"

definition BlacklistFilter_Apply :: "Lib \<Rightarrow> string \<Rightarrow> ParamSet \<Rightarrow> Meta \<Rightarrow> bool" where
  "BlacklistFilter_Apply L path params meta =
     (case checkExt L path (ExtList meta) of
        (hasExt, inList) \<Rightarrow> \<not> inList \<or> (\<not> Strict meta \<and> \<not> hasExt))"

definition VulnParamFilter_Apply :: "string \<Rightarrow> ParamSet \<Rightarrow> Meta \<Rightarrow> bool" where
  "VulnParamFilter_Apply path params meta =
     list_ex (\<lambda>param. param \<in> set (VulnParams meta)) (map fst params)"

text \<open>
  The one \<open>RemoveContentFilter\<close> object of a registry holds the prefix cache; its
  \<open>Apply\<close> takes the cache and returns it updated.
\<close>

definition RemoveContentFilter_Apply :: "string list \<Rightarrow> string \<Rightarrow> bool \<times> string list" where
  "RemoveContentFilter_Apply cache path =
     (if list_ex (\<lambda>part. 3 < strings_Count part CHR ''-'') (Split path CHR ''/'')
      then (False, cache)
      else if list_ex (\<lambda>pre. HasPrefix path pre) cache then (False, cache)
      else (case reContent_FindStringIndex path of
              Some match \<Rightarrow> (True, cache @ [take (snd match) path])
            | None \<Rightarrow> (True, cache)))"

text \<open>
  The dispatch of \<open>Filter.Apply\<close>. The metadata is passed as a pointer, which is nil
  until \<open>setupFilters\<close> has run: a filter that reads a field of a nil pointer panics
  (\<open>None\<close>). \<open>VulnParamFilter.Apply\<close> reads it only inside its loop over the
  parameters.
\<close>

definition Apply ::
  "Lib \<Rightarrow> Filter \<Rightarrow> string list \<Rightarrow> string \<Rightarrow> ParamSet \<Rightarrow> Meta option
     \<Rightarrow> (bool \<times> string list) option" where
  "Apply L f cache path params meta =
     (case f of
        HasExtFilter \<Rightarrow> Some (hasExtension path, cache)
      | NoExtFilter \<Rightarrow> Some (\<not> hasExtension path, cache)
      | HasParamsFilter \<Rightarrow> Some (0 < length params, cache)
      | NoParamsFilter \<Rightarrow> Some (length params = 0, cache)
      | WhitelistFilter \<Rightarrow>
          (case meta of
             None \<Rightarrow> None
           | Some m \<Rightarrow> Some (WhitelistFilter_Apply L path params m, cache))
      | BlacklistFilter \<Rightarrow>
          (case meta of
             None \<Rightarrow> None
           | Some m \<Rightarrow> Some (BlacklistFilter_Apply L path params m, cache))
      | RemoveContentFilter \<Rightarrow> Some (RemoveContentFilter_Apply cache path)
      | VulnParamFilter \<Rightarrow>
          (if length params = 0 then Some (False, cache)
           else (case meta of
                   None \<Rightarrow> None
                 | Some m \<Rightarrow> Some (VulnParamFilter_Apply path params m, cache))))"

type_synonym Registry = "(string \<times> Filter) list"

definition Register :: "Registry \<Rightarrow> Filter \<Rightarrow> Registry" where
  "Register r f = AList.update (Name f) f r"

definition NewRegistry :: Registry where
  "NewRegistry =
     foldl Register []
       [HasExtFilter, NoExtFilter, HasParamsFilter, NoParamsFilter,
        WhitelistFilter, BlacklistFilter, RemoveContentFilter, VulnParamFilter]"

definition Registry_Get :: "Registry \<Rightarrow> string \<Rightarrow> Filter option" where
  "Registry_Get r name = map_of r name"

definition Has :: "Registry \<Rightarrow> string \<Rightarrow> bool" where
  "Has r name = (map_of r name \<noteq> None)"

record URLProcessor =
  config :: Config
  urlMap_cli :: "(string \<times> PathMap) list"
  paramsSeen_cli :: "string set"
  patternsSeen_cli :: "string set"
  activeFilters :: "Filter list"
  filterMeta :: "Meta option"
  registry :: Registry
  removeContent_prefixes :: "string list"

datatype SetupError = InvalidFilter string

fun userFilterNames :: "Registry \<Rightarrow> string list \<Rightarrow> string list \<Rightarrow> SetupError + string list" where
  "userFilterNames r [] activeNames = Inr activeNames"
| "userFilterNames r (f # fs) activeNames =
     (if f = ''keepcontent'' \<or> f = ''keepslash'' \<or> f = ''allexts''
      then userFilterNames r fs activeNames
      else (let normalized = normalizeFilterName f
            in if Has r normalized then userFilterNames r fs (activeNames @ [normalized])
               else Inl (InvalidFilter f)))"

fun collectFilters :: "Registry \<Rightarrow> string list \<Rightarrow> Filter list \<Rightarrow> Filter list" where
  "collectFilters r [] active = active"
| "collectFilters r (name # names) active =
     (case Registry_Get r name of
        Some f \<Rightarrow> collectFilters r names (active @ [f])
      | None \<Rightarrow> collectFilters r names active)"

definition URLProcessor_setupFilters :: "Lib \<Rightarrow> URLProcessor \<Rightarrow> SetupError + URLProcessor" where
  "URLProcessor_setupFilters L p =
     (let fs = CleanArgs L (Filters_cfg (config p));
          keepContent = list_ex (\<lambda>f. f = ''keepcontent'') fs;
          a1 = (if \<not> keepContent then [''removecontent''] else []);
          allExts = list_ex (\<lambda>f. f = ''allexts'') fs;
          a2 = (if \<not> allExts
                then (if IsWhitelistMode (config p) then a1 @ [''whitelist'']
                      else a1 @ [''blacklist''])
                else a1)
      in case userFilterNames (registry p) fs a2 of
           Inl err \<Rightarrow> Inl err
         | Inr activeNames \<Rightarrow>
             Inr (p\<lparr>activeFilters := collectFilters (registry p) activeNames (activeFilters p),
                    filterMeta := Some \<lparr>Strict = list_ex (\<lambda>f. f = ''hasext'' \<or> f = ''noext'') fs,
                                        ExtList = GetExtList (config p),
                                        VulnParams = vulnParams\<rparr>\<rparr>))"

definition New :: "Lib \<Rightarrow> Config \<Rightarrow> SetupError + URLProcessor" where
  "New L cfg =
     URLProcessor_setupFilters L
       \<lparr>config = cfg, urlMap_cli = [], paramsSeen_cli = {}, patternsSeen_cli = {},
        activeFilters = [], filterMeta = None, registry = NewRegistry,
        removeContent_prefixes = []\<rparr>"

text \<open>
  \<open>URLProcessor.applyFilters\<close>, \<open>URLProcessor.processURL\<close> and
  \<open>URLProcessor.ProcessLine\<close>. They return nothing; the model returns the processor
  after the call, \<open>None\<close> when a filter panics.
\<close>

fun URLProcessor_applyFilters_loop ::
  "Lib \<Rightarrow> Filter list \<Rightarrow> URLProcessor \<Rightarrow> string \<Rightarrow> ParamSet
     \<Rightarrow> (bool \<times> URLProcessor) option" where
  "URLProcessor_applyFilters_loop L [] p path params = Some (True, p)"
| "URLProcessor_applyFilters_loop L (f # fs) p path params =
     (case Apply L f (removeContent_prefixes p) path params (filterMeta p) of
        None \<Rightarrow> None
      | Some (False, cache) \<Rightarrow> Some (False, p\<lparr>removeContent_prefixes := cache\<rparr>)
      | Some (True, cache) \<Rightarrow>
          URLProcessor_applyFilters_loop L fs (p\<lparr>removeContent_prefixes := cache\<rparr>) path params)"

definition URLProcessor_applyFilters ::
  "Lib \<Rightarrow> URLProcessor \<Rightarrow> string \<Rightarrow> ParamSet \<Rightarrow> (bool \<times> URLProcessor) option" where
  "URLProcessor_applyFilters L p path params =
     URLProcessor_applyFilters_loop L (activeFilters p) p path params"

definition URLProcessor_addNewPath ::
  "URLProcessor \<Rightarrow> string \<Rightarrow> string \<Rightarrow> ParamSet \<Rightarrow> URLProcessor" where
  "URLProcessor_addNewPath p host path params =
     (let p' = p\<lparr>urlMap_cli := setPath (urlMap_cli p) host path []\<rparr>
      in if 0 < length params
         then p'\<lparr>urlMap_cli := setPath (urlMap_cli p') host path
                  (hostPaths_path (urlMap_cli p') host path @ [params])\<rparr>
         else p')"

definition URLProcessor_processURL :: "Lib \<Rightarrow> URLProcessor \<Rightarrow> URL \<Rightarrow> URLProcessor option" where
  "URLProcessor_processURL L p u =
     (let host = BuildHost u;
          path = Path u;
          params = paramsToMap (RawQuery u);
          newParams = filter (\<lambda>param. param \<notin> paramsSeen_cli p) (map fst params)
      in case URLProcessor_applyFilters L p path params of
           None \<Rightarrow> None
         | Some (False, p1) \<Rightarrow> Some p1
         | Some (True, p1) \<Rightarrow>
             let p2 = p1\<lparr>paramsSeen_cli :=
                          foldl (\<lambda>s param. insert param s) (paramsSeen_cli p1) newParams\<rparr>;
                 p3 = (if map_of (urlMap_cli p2) host = None
                       then p2\<lparr>urlMap_cli := AList.update host [] (urlMap_cli p2)\<rparr> else p2)
             in case map_of (hostPaths (urlMap_cli p3) host) path of
                  None \<Rightarrow>
                    if reInt_MatchString path
                    then (let pattern = createPattern path
                          in if pattern \<in> patternsSeen_cli p3 then Some p3
                             else Some (URLProcessor_addNewPath
                                     (p3\<lparr>patternsSeen_cli := insert pattern (patternsSeen_cli p3)\<rparr>)
                                     host path params))
                    else Some (URLProcessor_addNewPath p3 host path params)
                | Some existing \<Rightarrow>
                    if 0 < length newParams
                    then Some (p3\<lparr>urlMap_cli :=
                                 setPath (urlMap_cli p3) host path (existing @ [params])\<rparr>)
                    else if 0 < length params \<and> compareParams existing params
                    then Some (p3\<lparr>urlMap_cli :=
                                 setPath (urlMap_cli p3) host path (existing @ [params])\<rparr>)
                    else Some p3)"

definition ProcessLine :: "Lib \<Rightarrow> URLProcessor \<Rightarrow> string \<Rightarrow> URLProcessor option" where
  "ProcessLine L p line =
     (let line1 = SanitizeUTF8 L line;
          line2 = NormalizePath L line1 (KeepSlash_cfg (config p))
      in if line2 = [] then Some p
         else (case url_Parse L line2 of
                 None \<Rightarrow> Some p
               | Some u \<Rightarrow> if Host u = [] then Some p else URLProcessor_processURL L p u))"

section \<open>An instance of the library interface\<close>

text \<open>
  To run the model on concrete lines the library functions are instantiated by
  \<open>asciiLib\<close>. \<open>ToValidUTF8\<close> replaces each run of bytes that do not start a
  well-formed UTF-8 sequence (\<open>utf8Len\<close> is the length of the sequence at the head of a
  string, 0 when there is none) by the replacement. The other three agree with the Go
  standard library on lines of printable ASCII characters of the shape
  \<open>scheme://host/path?query\<close> without escapes, fragment or user information: ASCII
  white space is trimmed at both ends, upper-case ASCII letters are lowered, and the URL
  is cut at \<open>://\<close>, at the first \<open>/\<close> or \<open>?\<close> after it, and at the first \<open>?\<close>.
\<close>

definition inRange :: "char \<Rightarrow> char \<Rightarrow> char \<Rightarrow> bool" where
  "inRange lo hi c = (lo \<le> c \<and> c \<le> hi)"

definition second3 :: "char \<Rightarrow> char \<Rightarrow> bool" where
  "second3 b0 b1 =
     (if b0 = CHR 0xE0 then inRange (CHR 0xA0) (CHR 0xBF) b1
      else if b0 = CHR 0xED then inRange (CHR 0x80) (CHR 0x9F) b1
      else inRange (CHR 0x80) (CHR 0xBF) b1)"

definition second4 :: "char \<Rightarrow> char \<Rightarrow> bool" where
  "second4 b0 b1 =
     (if b0 = CHR 0xF0 then inRange (CHR 0x90) (CHR 0xBF) b1
      else if b0 = CHR 0xF4 then inRange (CHR 0x80) (CHR 0x8F) b1
      else inRange (CHR 0x80) (CHR 0xBF) b1)"

fun utf8Len :: "string \<Rightarrow> nat" where
  "utf8Len [] = 0"
| "utf8Len (b0 # rest) =
     (if b0 < CHR 0x80 then 1
      else if inRange (CHR 0xC2) (CHR 0xDF) b0
      then (case rest of
              b1 # _ \<Rightarrow> if inRange (CHR 0x80) (CHR 0xBF) b1 then 2 else 0
            | _ \<Rightarrow> 0)
      else if inRange (CHR 0xE0) (CHR 0xEF) b0
      then (case rest of
              b1 # b2 # _ \<Rightarrow>
                if second3 b0 b1 \<and> inRange (CHR 0x80) (CHR 0xBF) b2 then 3 else 0
            | _ \<Rightarrow> 0)
      else if inRange (CHR 0xF0) (CHR 0xF4) b0
      then (case rest of
              b1 # b2 # b3 # _ \<Rightarrow>
                if second4 b0 b1 \<and> inRange (CHR 0x80) (CHR 0xBF) b2
                   \<and> inRange (CHR 0x80) (CHR 0xBF) b3 then 4 else 0
            | _ \<Rightarrow> 0)
      else 0)"

text \<open>
  \<open>toValid k inRun replacement s\<close>: \<open>k\<close> bytes of a well-formed sequence are still to be
  copied; \<open>inRun\<close> says that the byte before was dropped as invalid.
\<close>

fun toValid :: "nat \<Rightarrow> bool \<Rightarrow> string \<Rightarrow> string \<Rightarrow> string" where
  "toValid k inRun replacement [] = []"
| "toValid (Suc k) inRun replacement (c # cs) = c # toValid k False replacement cs"
| "toValid 0 inRun replacement (c # cs) =
     (case utf8Len (c # cs) of
        0 \<Rightarrow> (if inRun then [] else replacement) @ toValid 0 True replacement cs
      | Suc n \<Rightarrow> c # toValid n False replacement cs)"

definition asciiLower :: "char \<Rightarrow> char" where
  "asciiLower c =
     (if CHR ''A'' \<le> c \<and> c \<le> CHR ''Z'' then char_of (of_char c + (32::nat)) else c)"

definition asciiSpace :: "char \<Rightarrow> bool" where
  "asciiSpace c = (c \<in> set [CHR '' '', CHR 0x09, CHR 0x0A, CHR 0x0B, CHR 0x0C, CHR 0x0D])"

definition asciiTrim :: "string \<Rightarrow> string" where
  "asciiTrim s = rev (dropWhile asciiSpace (rev (dropWhile asciiSpace s)))"

fun splitScheme :: "string \<Rightarrow> string \<Rightarrow> (string \<times> string) option" where
  "splitScheme acc [] = None"
| "splitScheme acc (c # cs) =
     (if HasPrefix (c # cs) ''://'' then Some (acc, drop 3 (c # cs))
      else splitScheme (acc @ [c]) cs)"

definition simpleParse :: "string \<Rightarrow> URL option" where
  "simpleParse s =
     (case splitScheme [] s of
        None \<Rightarrow> None
      | Some (scheme, rest) \<Rightarrow>
          let host = takeWhile (\<lambda>c. c \<noteq> CHR ''/'' \<and> c \<noteq> CHR ''?'') rest;
              rest' = dropWhile (\<lambda>c. c \<noteq> CHR ''/'' \<and> c \<noteq> CHR ''?'') rest
          in Some \<lparr>Scheme = scheme, Host = host,
                    Path = takeWhile (\<lambda>c. c \<noteq> CHR ''?'') rest',
                    RawQuery = drop 1 (dropWhile (\<lambda>c. c \<noteq> CHR ''?'') rest')\<rparr>)"

definition asciiLib :: Lib where
  "asciiLib = \<lparr>ToValidUTF8 = (\<lambda>s replacement. toValid 0 False replacement s),
                TrimSpace = asciiTrim,
                ToLower = map asciiLower, url_Parse = simpleParse\<rparr>"

section \<open>Definitions used to state the properties\<close>

text \<open>
  The name of a query segment is the text before its first \<open>=\<close>; its value is the
  text after that \<open>=\<close>, or empty when the segment has no \<open>=\<close>.
\<close>

definition segName :: "string \<Rightarrow> string" where
  "segName seg = takeWhile (\<lambda>c. c \<noteq> CHR ''='') seg"

definition segValue :: "string \<Rightarrow> string" where
  "segValue seg =
     (if CHR ''='' \<in> set seg then tl (dropWhile (\<lambda>c. c \<noteq> CHR ''='') seg) else [])"

text \<open>A processor built with the \<open>hasext\<close> filter: its extension filter is strict.\<close>

definition strictProcessor :: Processor where
  "strictProcessor =
     NewProcessor asciiLib
       (Some \<lparr>Whitelist = [], Blacklist = [], Filters = [''hasext''], KeepSlash = False\<rparr>)"

text \<open>
  Names for the three values \<open>processURL\<close> computes first: the host key, the decoded
  parameter set, and the parameter names not yet in \<open>paramsSeen\<close>.
\<close>

definition urlHost :: "URL \<Rightarrow> string" where
  "urlHost u = Scheme u @ ''://'' @ Host u"

definition urlParams :: "URL \<Rightarrow> ParamSet" where
  "urlParams u = paramsToMap (RawQuery u)"

definition newNames :: "Processor \<Rightarrow> ParamSet \<Rightarrow> string list" where
  "newNames p params = filter (\<lambda>param. param \<notin> paramsSeen p) (map fst params)"

text \<open>
  \<open>storeURL\<close> is the part of \<open>processURL\<close> after the filter chain (from "Update seen
  params" to the end), and \<open>withHost\<close> its "Initialize host map if needed"; lemma
  \<open>processURL_storeURL\<close> below shows that \<open>processURL\<close> is the filter chain followed by
  \<open>storeURL\<close>.
\<close>

definition storeURL ::
  "Processor \<Rightarrow> string \<Rightarrow> string \<Rightarrow> ParamSet \<Rightarrow> string list \<Rightarrow> bool \<times> Processor" where
  "storeURL p1 host path params newParams =
     (let p2 = p1\<lparr>paramsSeen := foldl (\<lambda>s param. insert param s) (paramsSeen p1) newParams\<rparr>;
          p3 = (if map_of (urlMap p2) host = None
                then p2\<lparr>urlMap := AList.update host [] (urlMap p2)\<rparr> else p2)
      in case map_of (hostPaths (urlMap p3) host) path of
           None \<Rightarrow>
             if reInt_MatchString path
             then (let pattern = createPattern path
                   in if pattern \<in> patternsSeen p3 then (False, p3)
                      else (True, addNewPath
                              (p3\<lparr>patternsSeen := insert pattern (patternsSeen p3)\<rparr>)
                              host path params))
             else (True, addNewPath p3 host path params)
         | Some existing \<Rightarrow>
             if 0 < length newParams
             then (True, p3\<lparr>urlMap := setPath (urlMap p3) host path (existing @ [params])\<rparr>)
             else if 0 < length params \<and> compareParams existing params
             then (True, p3\<lparr>urlMap := setPath (urlMap p3) host path (existing @ [params])\<rparr>)
             else (False, p3))"

definition withHost :: "Processor \<Rightarrow> string \<Rightarrow> Processor" where
  "withHost p host =
     (if map_of (urlMap p) host = None then p\<lparr>urlMap := AList.update host [] (urlMap p)\<rparr> else p)"

text \<open>The URLs of host \<open>h\<close> used in the examples, and the processor with default options.\<close>

definition url_h :: "string \<Rightarrow> string \<Rightarrow> URL" where
  "url_h path query = \<lparr>Scheme = ''http'', Host = ''h'', Path = path, RawQuery = query\<rparr>"

definition freshProcessor :: Processor where
  "freshProcessor = NewProcessor asciiLib None"

text \<open>
  The pattern generalizer in the words of its description, written without the
  functions of the code. A segment is numeric when it is not empty and all its
  characters are decimal digits. The digit-wildcard token is the three characters
  backslash, \<open>d\<close>, \<open>+\<close>. Literal-escaping puts a backslash before each of the
  fourteen characters that are special in a regular expression and leaves every other
  character as it is. \<open>lastNumeric\<close> is the index of the last numeric segment of a
  list of segments, if there is one.
\<close>

definition numericSegment :: "string \<Rightarrow> bool" where
  "numericSegment part = (part \<noteq> [] \<and> set part \<subseteq> set ''0123456789'')"

definition digitWildcard :: string where
  "digitWildcard = [CHR 0x5C, CHR ''d'', CHR ''+'']"

definition metaChars :: "char list" where
  "metaChars = [CHR 0x5C, CHR ''.'', CHR ''+'', CHR ''*'', CHR ''?'', CHR ''('', CHR '')'',
                CHR ''|'', CHR ''['', CHR '']'', CHR ''{'', CHR ''}'', CHR ''^'', CHR ''$'']"

primrec escapeLiteral :: "string \<Rightarrow> string" where
  "escapeLiteral [] = []"
| "escapeLiteral (c # cs) =
     (if c \<in> set metaChars then CHR 0x5C # c # escapeLiteral cs else c # escapeLiteral cs)"

definition generalize :: "string \<Rightarrow> string" where
  "generalize part = (if numericSegment part then digitWildcard else escapeLiteral part)"

fun lastNumeric :: "string list \<Rightarrow> nat option" where
  "lastNumeric [] = None"
| "lastNumeric (x # xs) =
     (case lastNumeric xs of
        Some k \<Rightarrow> Some (Suc k)
      | None \<Rightarrow> if isDigit x then Some 0 else None)"

text \<open>
  The retained combinations of a store, in the order the enumeration visits them: one
  entry per stored parameter set, or one entry without parameters for a path whose list
  is empty. \<open>render\<close> is the string of an entry, \<open>writeLines\<close> writes strings one per
  line up to the first failure, and \<open>bufferWriter\<close> is a writer that appends to a
  buffer and never fails.
\<close>

type_synonym Entry = "string \<times> string \<times> ParamSet option"

definition pathEntries :: "string \<Rightarrow> string \<Rightarrow> ParamSet list \<Rightarrow> Entry list" where
  "pathEntries host path paramsList =
     (if 0 < length paramsList then map (\<lambda>params. (host, path, Some params)) paramsList
      else [(host, path, None)])"

definition retained :: "Processor \<Rightarrow> Entry list" where
  "retained p =
     concat (map (\<lambda>(host, paths).
               concat (map (\<lambda>(path, paramsList). pathEntries host path paramsList) paths))
            (urlMap p))"

fun render :: "Entry \<Rightarrow> string" where
  "render (host, path, None) = host @ path"
| "render (host, path, Some params) = host @ path @ mapToQuery params"

fun writeLines :: "'w Writer \<Rightarrow> 'w \<Rightarrow> string list \<Rightarrow> WriteError + 'w" where
  "writeLines wr w [] = Inr w"
| "writeLines wr w (s # ss) =
     (case Fprintln wr w s of Inl err \<Rightarrow> Inl err | Inr w' \<Rightarrow> writeLines wr w' ss)"

definition bufferWriter :: "string Writer" where
  "bufferWriter w s = Some (w @ s)"

text \<open>
  Two association lists stand for the same Go map visited in two orders when one is a
  permutation of the other. \<open>sameStore\<close> says so for the three levels of the store
  (hosts, paths, and the names of each parameter set; the list of parameter sets of a
  path is a slice and keeps its order). \<open>entryKey\<close> forgets the visiting order inside
  a parameter set.
\<close>

definition sameParams :: "ParamSet \<Rightarrow> ParamSet \<Rightarrow> bool" where
  "sameParams ps ps' = (mset ps = mset ps')"

definition samePaths :: "PathMap \<Rightarrow> PathMap \<Rightarrow> bool" where
  "samePaths al al' =
     (\<exists>al''. mset al'' = mset al \<and>
        list_all2 (\<lambda>(k, l) (k', l'). k = k' \<and> list_all2 sameParams l l') al'' al')"

definition sameStore :: "(string \<times> PathMap) list \<Rightarrow> (string \<times> PathMap) list \<Rightarrow> bool" where
  "sameStore m m' =
     (\<exists>m''. mset m'' = mset m \<and>
        list_all2 (\<lambda>(h, al) (h', al'). h = h' \<and> samePaths al al') m'' m')"

fun entryKey :: "Entry \<Rightarrow> string \<times> string \<times> (string \<times> string) multiset option" where
  "entryKey (host, path, params) = (host, path, map_option mset params)"

definition pathKeys ::
  "string \<Rightarrow> string \<times> ParamSet list \<Rightarrow> (string \<times> string \<times> (string \<times> string) multiset option) multiset" where
  "pathKeys host pl = image_mset entryKey (mset (pathEntries host (fst pl) (snd pl)))"

definition hostKeys ::
  "string \<times> PathMap \<Rightarrow> (string \<times> string \<times> (string \<times> string) multiset option) multiset" where
  "hostKeys hp = sum_list (map (pathKeys (fst hp)) (snd hp))"

text \<open>The store after three lines, and the same store visited in another order.\<close>

definition exampleStore :: Processor where
  "exampleStore =
     snd (ProcessReader asciiLib freshProcessor
            [''http://h/p?a=1'', ''http://h/p?a=2'', ''http://h/p?a=1&b=2''])"

definition exampleStore_reordered :: Processor where
  "exampleStore_reordered =
     exampleStore\<lparr>urlMap :=
       [(''http://h'', [(''/p'', [[(''a'', ''1'')], [(''b'', ''2''), (''a'', ''1'')]])])]\<rparr>"

text \<open>
  The three names the setup handles on its own, and the names that are neither one of
  them nor, once normalized, one of the eight filters. \<open>bogusOptions\<close> and
  \<open>bogusConfig\<close> configure the filters \<open>vuln\<close> and \<open>bogus\<close>.
\<close>

definition specialFilter :: "string \<Rightarrow> bool" where
  "specialFilter f = (f = ''keepcontent'' \<or> f = ''keepslash'' \<or> f = ''allexts'')"

definition unrecognizedFilter :: "string \<Rightarrow> bool" where
  "unrecognizedFilter f = (\<not> specialFilter f \<and> \<not> isValidFilter (normalizeFilterName f))"

definition bogusOptions :: Options where
  "bogusOptions = \<lparr>Whitelist = [], Blacklist = [], Filters = [''vuln'', ''bogus''], KeepSlash = False\<rparr>"

definition bogusConfig :: Config where
  "bogusConfig = \<lparr>InputFile = [], OutputFile = [], Whitelist_cfg = [], Blacklist_cfg = [],
                   Filters_cfg = [''vuln'', ''bogus''], KeepSlash_cfg = False\<rparr>"

text \<open>
  The line after the first two steps of \<open>Process\<close> (invalid bytes discarded, white
  space trimmed), and a processor built with the keep-trailing-slash option.
\<close>

definition cleanLine :: "Lib \<Rightarrow> string \<Rightarrow> string" where
  "cleanLine L rawURL = TrimSpace L (ToValidUTF8 L rawURL [])"

definition keepSlashProcessor :: Processor where
  "keepSlashProcessor =
     NewProcessor asciiLib
       (Some \<lparr>Whitelist = [], Blacklist = [], Filters = [], KeepSlash = True\<rparr>)"

text \<open>
  The words of \<open>reContent\<close>: \<open>post\<close> or \<open>blog\<close> with an optional \<open>s\<close>, \<open>docs\<close>,
  \<open>support/\<close>, or \<open>/\<close>, four digits or \<open>page\<close> or \<open>pages\<close>, \<open>/\<close>, one or more
  digits, \<open>/\<close>.
\<close>

definition contentWord :: "string \<Rightarrow> bool" where
  "contentWord w =
     (w = ''post'' \<or> w = ''posts'' \<or> w = ''blog'' \<or> w = ''blogs'' \<or> w = ''docs''
      \<or> w = ''support/''
      \<or> (\<exists>y ds. w = ''/'' @ y @ ''/'' @ ds @ ''/''
            \<and> (y = ''page'' \<or> y = ''pages'' \<or> (length y = 4 \<and> list_all isDigitChar y))
            \<and> ds \<noteq> [] \<and> list_all isDigitChar ds))"

text \<open>
  The command-line processor \<open>c\<close> and the library processor \<open>p\<close> are in the same
  state: the same store, the same seen parameter names and patterns, the same prefix
  cache, the same filter chain with the same metadata, the same trailing-slash setting.
  \<open>lift c q\<close> is \<open>c\<close> with the mutable state of \<open>q\<close>; \<open>URLProcessor_store\<close>
  is the part of \<open>URLProcessor.processURL\<close> after the filter chain; and
  \<open>plainURLProcessor\<close> is what \<open>New\<close> returns for the configuration without
  options.
\<close>

definition sameState :: "URLProcessor \<Rightarrow> Processor \<Rightarrow> bool" where
  "sameState c p =
     (urlMap_cli c = urlMap p \<and> paramsSeen_cli c = paramsSeen p
      \<and> patternsSeen_cli c = patternsSeen p \<and> removeContent_prefixes c = contentPrefixes p
      \<and> map Name (activeFilters c) = filters p
      \<and> filterMeta c = Some \<lparr>Strict = strict p, ExtList = extList p, VulnParams = vulnParams\<rparr>
      \<and> KeepSlash_cfg (config c) = keepSlash p)"

definition lift :: "URLProcessor \<Rightarrow> Processor \<Rightarrow> URLProcessor" where
  "lift c q = c\<lparr>urlMap_cli := urlMap q, paramsSeen_cli := paramsSeen q,
                patternsSeen_cli := patternsSeen q,
                removeContent_prefixes := contentPrefixes q\<rparr>"

definition URLProcessor_store ::
  "URLProcessor \<Rightarrow> string \<Rightarrow> string \<Rightarrow> ParamSet \<Rightarrow> string list \<Rightarrow> URLProcessor option" where
  "URLProcessor_store p1 host path params newParams =
     (let p2 = p1\<lparr>paramsSeen_cli :=
                  foldl (\<lambda>s param. insert param s) (paramsSeen_cli p1) newParams\<rparr>;
          p3 = (if map_of (urlMap_cli p2) host = None
                then p2\<lparr>urlMap_cli := AList.update host [] (urlMap_cli p2)\<rparr> else p2)
      in case map_of (hostPaths (urlMap_cli p3) host) path of
           None \<Rightarrow>
             if reInt_MatchString path
             then (let pattern = createPattern path
                   in if pattern \<in> patternsSeen_cli p3 then Some p3
                      else Some (URLProcessor_addNewPath
                              (p3\<lparr>patternsSeen_cli := insert pattern (patternsSeen_cli p3)\<rparr>)
                              host path params))
             else Some (URLProcessor_addNewPath p3 host path params)
         | Some existing \<Rightarrow>
             if 0 < length newParams
             then Some (p3\<lparr>urlMap_cli :=
                          setPath (urlMap_cli p3) host path (existing @ [params])\<rparr>)
             else if 0 < length params \<and> compareParams existing params
             then Some (p3\<lparr>urlMap_cli :=
                          setPath (urlMap_cli p3) host path (existing @ [params])\<rparr>)
             else Some p3)"

definition plainConfig :: Config where
  "plainConfig = \<lparr>InputFile = [], OutputFile = [], Whitelist_cfg = [], Blacklist_cfg = [],
                   Filters_cfg = [], KeepSlash_cfg = False\<rparr>"

definition plainURLProcessor :: URLProcessor where
  "plainURLProcessor =
     \<lparr>config = plainConfig, urlMap_cli = [], paramsSeen_cli = {}, patternsSeen_cli = {},
      activeFilters = [RemoveContentFilter, BlacklistFilter],
      filterMeta = Some \<lparr>Strict = False, ExtList = defaultBlacklist, VulnParams = vulnParams\<rparr>,
      registry = NewRegistry, removeContent_prefixes = []\<rparr>"

section \<open>The query decoder\<close>

lemma SplitN2_seg:
  "SplitN2 seg CHR ''='' = (if CHR ''='' \<in> set seg then [segName seg, segValue seg] else [seg])"
  by (simp add: SplitN2_def segName_def segValue_def)

lemma segName_no_eq: "CHR ''='' \<notin> set seg \<Longrightarrow> segName seg = seg"
  by (auto simp: segName_def)

lemma paramsToMap_loop_step:
  "paramsToMap_loop (pair # pairs) result =
     paramsToMap_loop pairs
       (if segName pair \<noteq> [] then AList.update (segName pair) (segValue pair) result
        else result)"
  by (simp add: SplitN2_seg segName_no_eq segValue_def Let_def)

lemma paramsToMap_loop_lookup:
  "map_of (paramsToMap_loop pairs result) k =
     (if k = [] then map_of result k
      else (case filter (\<lambda>seg. segName seg = k) pairs of
              [] \<Rightarrow> map_of result k
            | segs \<Rightarrow> Some (segValue (last segs))))"
proof (induction pairs arbitrary: result)
  case Nil
  then show ?case by simp
next
  case (Cons pair pairs)
  show ?case
    unfolding paramsToMap_loop_step Cons.IH
    by (auto simp: update_conv' split: list.splits)
qed

lemma paramsToMap_loop_distinct:
  "distinct (map fst result) \<Longrightarrow> distinct (map fst (paramsToMap_loop pairs result))"
proof (induction pairs arbitrary: result)
  case Nil
  then show ?case by simp
next
  case (Cons pair pairs)
  show ?case
    unfolding paramsToMap_loop_step
    by (rule Cons.IH) (simp add: Cons.prems distinct_update)
qed

lemma paramsToMap_distinct: "distinct (map fst (paramsToMap query))"
  by (simp add: paramsToMap_def paramsToMap_loop_distinct)

text \<open>
  C8. For every raw query string, looking a name up in the decoded map gives: nothing
  for the empty name; nothing when no \<open>&\<close>-separated segment has that name before its
  first \<open>=\<close>; and otherwise the value of the last such segment, where the value is the
  text after the first \<open>=\<close> and is empty for a bare name. The keys of the decoded map
  are distinct.
\<close>

theorem paramsToMap_last_wins:
  "map_of (paramsToMap query) name =
     (if name = [] then None
      else (case filter (\<lambda>seg. segName seg = name) (Split query CHR ''&'') of
              [] \<Rightarrow> None
            | segs \<Rightarrow> Some (segValue (last segs))))
   \<and> distinct (map fst (paramsToMap query))"
proof (cases "query = []")
  case True
  then show ?thesis by (auto simp: paramsToMap_def segName_def)
next
  case False
  then show ?thesis
    by (auto simp: paramsToMap_def paramsToMap_loop_lookup paramsToMap_loop_distinct
          split: list.splits)
qed

theorem paramsToMap_last_wins_witness:
  "map_of (paramsToMap ''a=1&b&=3&a=5&c=1=2'') ''a'' = Some ''5''
   \<and> map_of (paramsToMap ''a=1&b&=3&a=5&c=1=2'') ''b'' = Some []
   \<and> map_of (paramsToMap ''a=1&b&=3&a=5&c=1=2'') ''c'' = Some ''1=2''
   \<and> map_of (paramsToMap ''a=1&b&=3&a=5&c=1=2'') [] = None
   \<and> map_of (paramsToMap ''a=1&b&=3&a=5&c=1=2'') ''3'' = None"
  using paramsToMap_last_wins [of "''a=1&b&=3&a=5&c=1=2''" "''a''"]
        paramsToMap_last_wins [of "''a=1&b&=3&a=5&c=1=2''" "''b''"]
        paramsToMap_last_wins [of "''a=1&b&=3&a=5&c=1=2''" "''c''"]
        paramsToMap_last_wins [of "''a=1&b&=3&a=5&c=1=2''" "[]"]
        paramsToMap_last_wins [of "''a=1&b&=3&a=5&c=1=2''" "''3''"]
  by (simp add: segName_def segValue_def)

section \<open>The extension filters\<close>

lemma list_ex_eq_mem: "list_ex (\<lambda>e. x = e) xs = (x \<in> set xs)"
  by (induction xs) auto

lemma getExtension_slash_a: "getExtension L ''/a'' = []"
  by (simp add: getExtension_def lastPart_def LastIndex_def)

lemma getExtension_css: "getExtension asciiLib ''/x.css'' = ''css''"
  by (simp add: getExtension_def lastPart_def LastIndex_def asciiLib_def asciiLower_def)

lemma strictProcessor_extList: "extList strictProcessor = defaultBlacklist"
  by code_simp

text \<open>
  C6, as the code has it. The blacklist filter keeps a path exactly when its
  last-segment extension is empty or is not in the blocked list, in \<open>uro.go\<close>
  (\<open>checkBlacklist\<close>) and in the filter package (\<open>BlacklistFilter.Apply\<close>, whose
  expression is the one of the claim: not in the list, or not strict and no extension).
  The strict flag does not change the verdict of either: a path without an extension
  is kept by the blacklist filter in strict mode too.
\<close>

theorem blacklist_ignores_strict:
  "checkBlacklist L p path = (getExtension L path = [] \<or> getExtension L path \<notin> set (extList p))
   \<and> BlacklistFilter_Apply L path params meta =
       (getExtension L path = [] \<or> getExtension L path \<notin> set (ExtList meta))
   \<and> checkBlacklist L (p\<lparr>strict := b\<rparr>) path = checkBlacklist L p path
   \<and> BlacklistFilter_Apply L path params (meta\<lparr>Strict := b\<rparr>) =
       BlacklistFilter_Apply L path params meta
   \<and> BlacklistFilter_Apply L path params meta =
       (\<not> snd (checkExt L path (ExtList meta))
        \<or> (\<not> Strict meta \<and> \<not> fst (checkExt L path (ExtList meta))))"
  by (auto simp: checkBlacklist_def BlacklistFilter_Apply_def checkExt_def list_ex_eq_mem Let_def)

theorem blacklist_ignores_strict_witness:
  "checkBlacklist asciiLib strictProcessor ''/x.css'' = False
   \<and> checkBlacklist asciiLib strictProcessor ''/a'' = True
   \<and> BlacklistFilter_Apply asciiLib ''/x.css'' []
        \<lparr>Strict = True, ExtList = defaultBlacklist, VulnParams = vulnParams\<rparr> = False"
  using blacklist_ignores_strict [of asciiLib strictProcessor "''/x.css''"  "[]"
          "\<lparr>Strict = True, ExtList = defaultBlacklist, VulnParams = vulnParams\<rparr>" True]
        blacklist_ignores_strict [of asciiLib strictProcessor "''/a''"  "[]"
          "\<lparr>Strict = True, ExtList = defaultBlacklist, VulnParams = vulnParams\<rparr>" True]
  by (simp add: getExtension_slash_a getExtension_css strictProcessor_extList defaultBlacklist_def)

text \<open>
  The claim's last part fails: with the strict flag set, the path \<open>/a\<close> has no
  extension and the blacklist filter keeps it.
\<close>

theorem blacklist_strict_counterexample:
  "strict strictProcessor \<and> getExtension asciiLib ''/a'' = []
   \<and> \<not> hasExtension ''/a''
   \<and> checkBlacklist asciiLib strictProcessor ''/a''
   \<and> BlacklistFilter_Apply asciiLib ''/a'' []
        \<lparr>Strict = True, ExtList = defaultBlacklist, VulnParams = vulnParams\<rparr>"
  by code_simp

section \<open>Lemmas about \<open>processURL\<close>\<close>

lemma processURL_storeURL:
  "processURL L p u =
     (case applyFilters L p (Path u) (urlParams u) of
        (False, p1) \<Rightarrow> (False, p1)
      | (True, p1) \<Rightarrow> storeURL p1 (urlHost u) (Path u) (urlParams u) (newNames p (urlParams u)))"
  by (simp add: processURL_def storeURL_def urlHost_def urlParams_def newNames_def Let_def
        split: prod.splits bool.splits)

lemma foldl_insert: "foldl (\<lambda>s x. insert x s) S xs = S \<union> set xs"
  by (induction xs arbitrary: S) auto

lemma set_newNames: "paramsSeen p \<union> set (newNames p params) = paramsSeen p \<union> set (map fst params)"
  by (auto simp: newNames_def)

lemma newNames_empty: "newNames p params = [] \<longleftrightarrow> set (map fst params) \<subseteq> paramsSeen p"
  by (auto simp: newNames_def filter_empty_conv)

subsection \<open>The filter chain only touches the prefix cache\<close>

lemma checkContent_shape:
  "checkContent p path = (ok, p') \<Longrightarrow>
     p' = p\<lparr>contentPrefixes := contentPrefixes p'\<rparr> \<and>
     (\<exists>more. contentPrefixes p' = contentPrefixes p @ more)"
  by (auto simp: checkContent_def split: if_splits option.splits)

lemma applyFilter_shape:
  "applyFilter L p f path params = (ok, p') \<Longrightarrow>
     p' = p\<lparr>contentPrefixes := contentPrefixes p'\<rparr> \<and>
     (\<exists>more. contentPrefixes p' = contentPrefixes p @ more)"
  by (auto simp: applyFilter_def dest: checkContent_shape split: if_splits)

lemma applyFilters_loop_shape:
  "applyFilters_loop L fs p path params = (ok, p') \<Longrightarrow>
     p' = p\<lparr>contentPrefixes := contentPrefixes p'\<rparr> \<and>
     (\<exists>more. contentPrefixes p' = contentPrefixes p @ more)"
proof (induction fs arbitrary: p)
  case Nil
  then show ?case by auto
next
  case (Cons f fs)
  obtain ok1 pm where a: "applyFilter L p f path params = (ok1, pm)"
    by (cases "applyFilter L p f path params")
  from applyFilter_shape[OF a] obtain more1 where
    s1: "pm = p\<lparr>contentPrefixes := contentPrefixes pm\<rparr>" and
    m1: "contentPrefixes pm = contentPrefixes p @ more1" by blast
  show ?case
  proof (cases ok1)
    case False
    with Cons.prems a have "p' = pm" by simp
    with s1 m1 show ?thesis by blast
  next
    case True
    with Cons.prems a have r: "applyFilters_loop L fs pm path params = (ok, p')" by simp
    from Cons.IH[OF r] obtain more2 where
      s2: "p' = pm\<lparr>contentPrefixes := contentPrefixes p'\<rparr>" and
      m2: "contentPrefixes p' = contentPrefixes pm @ more2" by blast
    have "p' = p\<lparr>contentPrefixes := contentPrefixes p'\<rparr>"
      by (subst s2, subst s1) simp
    moreover have "contentPrefixes p' = contentPrefixes p @ (more1 @ more2)"
      using m1 m2 by simp
    ultimately show ?thesis by blast
  qed
qed


lemma HasPrefix_iff: "HasPrefix s pre \<longleftrightarrow> prefix pre s"
  by (induction s pre rule: HasPrefix.induct) auto

lemma HasPrefix_take: "HasPrefix path (take n path)"
  by (simp add: HasPrefix_iff take_is_prefix)

lemma checkContent_no_match:
  "reContent_FindStringIndex path = None \<Longrightarrow> snd (checkContent p path) = p"
  by (simp add: checkContent_def)

lemma applyFilter_no_match:
  "reContent_FindStringIndex path = None \<Longrightarrow> snd (applyFilter L p f path params) = p"
  by (simp add: applyFilter_def checkContent_no_match)

lemma applyFilters_loop_no_match:
  "reContent_FindStringIndex path = None \<Longrightarrow> snd (applyFilters_loop L fs p path params) = p"
proof (induction fs arbitrary: p)
  case Nil
  then show ?case by simp
next
  case (Cons f fs)
  have "snd (applyFilter L p f path params) = p"
    using Cons.prems by (rule applyFilter_no_match)
  then show ?case
    using Cons.IH[OF Cons.prems, of p]
    by (cases "applyFilter L p f path params") (auto split: bool.splits)
qed

lemma applyFilter_pure:
  "f \<noteq> ''removecontent'' \<Longrightarrow> strict q = strict p \<Longrightarrow> extList q = extList p \<Longrightarrow>
   applyFilter L q f path params = (fst (applyFilter L p f path params), q)
   \<and> snd (applyFilter L p f path params) = p"
  by (simp add: applyFilter_def checkWhitelist_def checkBlacklist_def)

lemma applyFilters_loop_rerun:
  "applyFilters_loop L fs p path params = (True, p') \<Longrightarrow>
   strict q = strict p \<Longrightarrow> extList q = extList p \<Longrightarrow>
   contentPrefixes q = contentPrefixes p' \<Longrightarrow>
   applyFilters_loop L fs q path params =
     (if contentPrefixes p' = contentPrefixes p then (True, q) else (False, q))"
proof (induction fs arbitrary: p)
  case Nil
  then show ?case by auto
next
  case (Cons f fs)
  obtain ok1 pm where a: "applyFilter L p f path params = (ok1, pm)"
    by (cases "applyFilter L p f path params")
  have ok1: "ok1" using Cons.prems(1) a by (cases ok1) auto
  have r: "applyFilters_loop L fs pm path params = (True, p')"
    using Cons.prems(1) a ok1 by simp
  show ?case
  proof (cases "f = ''removecontent''")
    case False
    from applyFilter_pure[OF False Cons.prems(2,3), of L path params] a ok1
    have q1: "applyFilter L q f path params = (True, q)" and pm: "pm = p" by auto
    from Cons.IH[of p] r pm Cons.prems(2,3,4)
    have "applyFilters_loop L fs q path params =
            (if contentPrefixes p' = contentPrefixes p then (True, q) else (False, q))" by simp
    with q1 show ?thesis by simp
  next
    case True
    then have c: "checkContent p path = (True, pm)"
      using a ok1 by (simp add: applyFilter_def)
    have nohyph: "\<not> list_ex (\<lambda>part. 3 < strings_Count part CHR ''-'') (Split path CHR ''/'')"
      using c by (auto simp: checkContent_def split: if_splits)
    show ?thesis
    proof (cases "reContent_FindStringIndex path")
      case None
      have pm: "pm = p" using checkContent_no_match[OF None, of p] c by simp
      have "snd (applyFilters_loop L fs pm path params) = pm"
        using None by (rule applyFilters_loop_no_match)
      with r pm have same: "p' = p" by simp
      have nopre: "\<not> list_ex (\<lambda>pre. HasPrefix path pre) (contentPrefixes p)"
        using c by (auto simp: checkContent_def split: if_splits)
      have "checkContent q path = (True, q)"
        using nohyph nopre None Cons.prems(4) same by (simp add: checkContent_def)
      then have q1: "applyFilter L q f path params = (True, q)"
        using True by (simp add: applyFilter_def)
      from Cons.IH[of p] r pm Cons.prems(2,3,4)
      have "applyFilters_loop L fs q path params =
              (if contentPrefixes p' = contentPrefixes p then (True, q) else (False, q))" by simp
      with q1 show ?thesis by simp
    next
      case (Some m)
      have pm: "contentPrefixes pm = contentPrefixes p @ [take (snd m) path]"
        using c Some by (auto simp: checkContent_def split: if_splits)
      from applyFilters_loop_shape[OF r] obtain more where
        m2: "contentPrefixes p' = contentPrefixes pm @ more" by blast
      have ne: "contentPrefixes p' \<noteq> contentPrefixes p" using pm m2 by simp
      have "take (snd m) path \<in> set (contentPrefixes q)"
        using Cons.prems(4) pm m2 by simp
      then have "list_ex (\<lambda>pre. HasPrefix path pre) (contentPrefixes q)"
        unfolding list_ex_iff using HasPrefix_take by blast
      then have "checkContent q path = (False, q)"
        using nohyph by (simp add: checkContent_def)
      then have "applyFilter L q f path params = (False, q)"
        using True by (simp add: applyFilter_def)
      with ne show ?thesis by simp
    qed
  qed
qed

subsection \<open>The store update\<close>

lemma compareParams_iff:
  "compareParams existing new \<longleftrightarrow>
     (\<exists>key \<in> set (map fst new). key \<notin> (\<Union>ps \<in> set existing. set (map fst ps)))"
proof -
  have "foldl (\<lambda>seen params. foldl (\<lambda>s key. insert key s) seen (map fst params)) S existing
          = S \<union> (\<Union>ps \<in> set existing. set (map fst ps))" for S
    by (induction existing arbitrary: S) (auto simp: foldl_insert)
  then show ?thesis
    by (simp add: compareParams_def list_ex_iff)
qed

lemma compareParams_stored: "params \<in> set existing \<Longrightarrow> \<not> compareParams existing params"
  by (auto simp: compareParams_iff)

lemma hostPaths_setPath_same:
  "hostPaths (setPath m host path v) host = AList.update path v (hostPaths m host)"
  by (simp add: hostPaths_def setPath_def update_conv')

lemma hostPaths_setPath_other:
  "h \<noteq> host \<Longrightarrow> hostPaths (setPath m host path v) h = hostPaths m h"
  by (simp add: hostPaths_def setPath_def update_conv')

lemma setPath_setPath: "setPath (setPath m host path v) host path w = setPath m host path w"
  by (simp add: setPath_def hostPaths_def update_conv')

lemma map_of_setPath_host: "map_of (setPath m host path v) host \<noteq> None"
  by (simp add: setPath_def update_conv')

lemma hostPaths_path_setPath: "hostPaths_path (setPath m host path v) host path = v"
  by (simp add: hostPaths_path_def hostPaths_setPath_same update_conv')

lemma hostPaths_update_host_empty:
  "map_of m host = None \<Longrightarrow> hostPaths (AList.update host [] m) h = hostPaths m h"
  by (simp add: hostPaths_def update_conv')

lemma hostPaths_withHost: "hostPaths (urlMap (withHost p host)) h = hostPaths (urlMap p) h"
  by (simp add: withHost_def hostPaths_update_host_empty)

lemma withHost_fields:
  "paramsSeen (withHost p host) = paramsSeen p"
  "patternsSeen (withHost p host) = patternsSeen p"
  "contentPrefixes (withHost p host) = contentPrefixes p"
  "opts (withHost p host) = opts p"
  "extList (withHost p host) = extList p"
  "filters (withHost p host) = filters p"
  "strict (withHost p host) = strict p"
  "keepSlash (withHost p host) = keepSlash p"
  by (simp_all add: withHost_def)

lemma withHost_present: "map_of (urlMap p) host \<noteq> None \<Longrightarrow> withHost p host = p"
  by (auto simp: withHost_def)

lemma addNewPath_eq:
  "addNewPath p host path params =
     p\<lparr>urlMap := setPath (urlMap p) host path (if 0 < length params then [params] else [])\<rparr>"
  by (simp add: addNewPath_def Let_def hostPaths_path_setPath setPath_setPath)

lemma path_present_host_present:
  "map_of (hostPaths m host) path = Some existing \<Longrightarrow> map_of m host \<noteq> None"
  by (auto simp: hostPaths_def split: option.splits)

lemma storeURL_new_path:
  assumes "map_of (hostPaths (urlMap p1) host) path = None"
  shows "storeURL p1 host path params nn =
     (if reInt_MatchString path \<and> createPattern path \<in> patternsSeen p1
      then (False, withHost (p1\<lparr>paramsSeen := paramsSeen p1 \<union> set nn\<rparr>) host)
      else (True, (withHost (p1\<lparr>paramsSeen := paramsSeen p1 \<union> set nn\<rparr>) host)
              \<lparr>patternsSeen := (if reInt_MatchString path
                                 then insert (createPattern path) (patternsSeen p1)
                                 else patternsSeen p1),
               urlMap := setPath (urlMap (withHost p1 host)) host path
                           (if 0 < length params then [params] else [])\<rparr>))"
proof -
  let ?p2 = "p1\<lparr>paramsSeen := paramsSeen p1 \<union> set nn\<rparr>"
  have u: "urlMap (withHost ?p2 host) = urlMap (withHost p1 host)"
    by (simp add: withHost_def)
  have l: "map_of (hostPaths (urlMap (withHost ?p2 host)) host) path = None"
    using assms by (simp add: hostPaths_withHost)
  have w: "(if map_of (urlMap ?p2) host = None
            then ?p2\<lparr>urlMap := AList.update host [] (urlMap ?p2)\<rparr> else ?p2) = withHost ?p2 host"
    by (simp add: withHost_def)
  show ?thesis
    unfolding storeURL_def foldl_insert Let_def w
    using l u
    by (simp add: withHost_fields addNewPath_eq)
qed

lemma storeURL_existing:
  assumes "map_of (hostPaths (urlMap p1) host) path = Some existing"
  shows "storeURL p1 host path params nn =
     (if 0 < length nn \<or> (0 < length params \<and> compareParams existing params)
      then (True, p1\<lparr>paramsSeen := paramsSeen p1 \<union> set nn,
                      urlMap := setPath (urlMap p1) host path (existing @ [params])\<rparr>)
      else (False, p1\<lparr>paramsSeen := paramsSeen p1 \<union> set nn\<rparr>))"
proof -
  have h: "map_of (urlMap p1) host \<noteq> None"
    using assms by (rule path_present_host_present)
  show ?thesis
    unfolding storeURL_def foldl_insert Let_def
    using assms h by auto
qed

lemma applyFilters_config:
  assumes "applyFilters L p path params = (ok, p1)"
  shows "p1 = p\<lparr>contentPrefixes := contentPrefixes p1\<rparr>"
  using applyFilters_loop_shape[OF assms[unfolded applyFilters_def]] by blast

lemma storeURL_kept_facts:
  assumes s: "storeURL pa host path params nn = (True, p1)"
      and n: "set (map fst params) \<subseteq> paramsSeen pa \<union> set nn"
  shows "strict p1 = strict pa \<and> extList p1 = extList pa \<and> filters p1 = filters pa
         \<and> contentPrefixes p1 = contentPrefixes pa
         \<and> set (map fst params) \<subseteq> paramsSeen p1
         \<and> (\<exists>l. map_of (hostPaths (urlMap p1) host) path = Some l
                 \<and> \<not> (0 < length params \<and> compareParams l params))"
proof (cases "map_of (hostPaths (urlMap pa) host) path")
  case None
  have "\<not> (0 < length params \<and> compareParams (if 0 < length params then [params] else []) params)"
    by (simp add: compareParams_stored)
  then show ?thesis
    using s n unfolding storeURL_new_path[OF None]
    by (auto simp: withHost_fields hostPaths_setPath_same update_conv' split: if_splits)
next
  case (Some existing)
  have "\<not> compareParams (existing @ [params]) params"
    by (simp add: compareParams_stored)
  then show ?thesis
    using s n unfolding storeURL_existing[OF Some]
    by (auto simp: hostPaths_setPath_same update_conv' split: if_splits)
qed

lemma storeURL_redundant:
  assumes "map_of (hostPaths (urlMap q) host) path = Some l"
      and "\<not> (0 < length params \<and> compareParams l params)"
  shows "storeURL q host path params [] = (False, q)"
  using assms(2) unfolding storeURL_existing[OF assms(1)] by simp


lemma update_absent: "map_of m k = None \<Longrightarrow> AList.update k v m = m @ [(k, v)]"
  by (induction m) (auto split: if_splits)

lemma Count_hosts_append: "Count_hosts (m @ m') c = Count_hosts m' (Count_hosts m c)"
  by (induction m arbitrary: c) auto

lemma Results_withHost: "Results (withHost p host) = Results p"
  by (simp add: withHost_def Results_def update_absent)

lemma Count_withHost: "Count (withHost p host) = Count p"
  by (simp add: withHost_def Count_def update_absent Count_hosts_append)

lemma Results_paramsSeen_update [simp]: "Results (p\<lparr>paramsSeen := s\<rparr>) = Results p"
  by (simp add: Results_def)

lemma Count_paramsSeen_update [simp]: "Count (p\<lparr>paramsSeen := s\<rparr>) = Count p"
  by (simp add: Count_def)

lemma Results_contentPrefixes_update [simp]: "Results (p\<lparr>contentPrefixes := s\<rparr>) = Results p"
  by (simp add: Results_def)

lemma Count_contentPrefixes_update [simp]: "Count (p\<lparr>contentPrefixes := s\<rparr>) = Count p"
  by (simp add: Count_def)

lemma withHost_paramsSeen_update:
  "withHost (p\<lparr>paramsSeen := s\<rparr>) host = (withHost p host)\<lparr>paramsSeen := s\<rparr>"
  by (simp add: withHost_def)

lemma storeURL_config:
  assumes "storeURL pa host path params nn = (kept, p')"
  shows "opts p' = opts pa \<and> extList p' = extList pa \<and> filters p' = filters pa
         \<and> strict p' = strict pa \<and> keepSlash p' = keepSlash pa
         \<and> contentPrefixes p' = contentPrefixes pa
         \<and> paramsSeen p' = paramsSeen pa \<union> set nn"
proof (cases "map_of (hostPaths (urlMap pa) host) path")
  case None
  show ?thesis
    using assms unfolding storeURL_new_path[OF None]
    by (auto simp: withHost_fields split: if_splits)
next
  case (Some existing)
  show ?thesis
    using assms unfolding storeURL_existing[OF Some]
    by (auto split: if_splits)
qed

lemma storeURL_skipped:
  assumes "storeURL pa host path params nn = (False, p')"
  shows "patternsSeen p' = patternsSeen pa \<and> Results p' = Results pa \<and> Count p' = Count pa
         \<and> (\<forall>h. hostPaths (urlMap p') h = hostPaths (urlMap pa) h)"
proof (cases "map_of (hostPaths (urlMap pa) host) path")
  case None
  have "p' = (withHost pa host)\<lparr>paramsSeen := paramsSeen pa \<union> set nn\<rparr>"
    using assms unfolding storeURL_new_path[OF None]
    by (simp add: withHost_paramsSeen_update split: if_splits)
  then show ?thesis
    by (simp add: withHost_fields Results_withHost Count_withHost hostPaths_withHost)
next
  case (Some existing)
  have "p' = pa\<lparr>paramsSeen := paramsSeen pa \<union> set nn\<rparr>"
    using assms unfolding storeURL_existing[OF Some] by (simp split: if_splits)
  then show ?thesis by simp
qed

lemma storeURL_skipped_existing:
  assumes "storeURL pa host path params nn = (False, p')"
      and "map_of (hostPaths (urlMap pa) host) path \<noteq> None"
  shows "p' = pa"
proof -
  from assms(2) obtain existing where
    e: "map_of (hostPaths (urlMap pa) host) path = Some existing" by blast
  show ?thesis
    using assms(1) unfolding storeURL_existing[OF e] by (auto split: if_splits)
qed

lemma storeURL_kept_present:
  assumes "storeURL pa host path params nn = (True, p')"
  shows "map_of (hostPaths (urlMap p') host) path \<noteq> None"
proof (cases "map_of (hostPaths (urlMap pa) host) path")
  case None
  show ?thesis
    using assms unfolding storeURL_new_path[OF None]
    by (auto simp: hostPaths_setPath_same update_conv' split: if_splits)
next
  case (Some existing)
  show ?thesis
    using assms unfolding storeURL_existing[OF Some]
    by (auto simp: hostPaths_setPath_same update_conv' split: if_splits)
qed


lemma processURL_keepSlash:
  assumes "processURL L p u = (kept, p')"
  shows "keepSlash p' = keepSlash p"
proof -
  obtain ok pa where f: "applyFilters L p (Path u) (urlParams u) = (ok, pa)"
    by (cases "applyFilters L p (Path u) (urlParams u)")
  from applyFilters_config[OF f] have pa: "pa = p\<lparr>contentPrefixes := contentPrefixes pa\<rparr>" .
  have k: "keepSlash pa = keepSlash p" by (subst pa) simp
  show ?thesis
  proof (cases ok)
    case False
    then show ?thesis using assms f k by (auto simp: processURL_storeURL)
  next
    case True
    then have "storeURL pa (urlHost u) (Path u) (urlParams u) (newNames p (urlParams u))
                 = (kept, p')"
      using assms f by (simp add: processURL_storeURL)
    from storeURL_config[OF this] k show ?thesis by simp
  qed
qed

lemma resubmitted_url_dropped:
  assumes "processURL L p u = (True, p1)"
  shows "processURL L p1 u = (False, p1)"
proof -
  obtain ok pa where f: "applyFilters L p (Path u) (urlParams u) = (ok, pa)"
    by (cases "applyFilters L p (Path u) (urlParams u)")
  have ok: ok using assms f by (cases ok) (auto simp: processURL_storeURL)
  have s: "storeURL pa (urlHost u) (Path u) (urlParams u) (newNames p (urlParams u)) = (True, p1)"
    using assms f ok by (simp add: processURL_storeURL)
  from applyFilters_config[OF f] have pa: "pa = p\<lparr>contentPrefixes := contentPrefixes pa\<rparr>" .
  have seen: "paramsSeen pa = paramsSeen p" by (subst pa) simp
  have cfg: "strict pa = strict p" "extList pa = extList p" "filters pa = filters p"
    by (subst pa, simp)+
  have n: "set (map fst (urlParams u)) \<subseteq> paramsSeen pa \<union> set (newNames p (urlParams u))"
    using set_newNames[of p "urlParams u"] seen by auto
  from storeURL_kept_facts[OF s n] obtain l where
    k: "strict p1 = strict pa" "extList p1 = extList pa" "filters p1 = filters pa"
       "contentPrefixes p1 = contentPrefixes pa"
       "set (map fst (urlParams u)) \<subseteq> paramsSeen p1"
       "map_of (hostPaths (urlMap p1) (urlHost u)) (Path u) = Some l"
       "\<not> (0 < length (urlParams u) \<and> compareParams l (urlParams u))"
    by blast
  have f': "applyFilters_loop L (filters p) p (Path u) (urlParams u) = (True, pa)"
    using f ok by (simp add: applyFilters_def)
  have rerun: "applyFilters L p1 (Path u) (urlParams u) =
                 (if contentPrefixes pa = contentPrefixes p then (True, p1) else (False, p1))"
    unfolding applyFilters_def
    using applyFilters_loop_rerun[OF f', of p1] k(1,2,3,4) cfg by simp
  have nn: "newNames p1 (urlParams u) = []"
    using k(5) by (simp add: newNames_empty)
  show ?thesis
    unfolding processURL_storeURL rerun
    using storeURL_redundant[OF k(6,7)] nn by simp
qed

section \<open>Lemmas about the pattern generalizer\<close>

lemma digitToken_bytes: "digitToken = digitWildcard"
  by (simp add: digitToken_def digitWildcard_def backslash_def)

lemma QuoteMeta_escapeLiteral: "QuoteMeta s = escapeLiteral s"
  by (induction s) (simp_all add: QuoteMeta_def specialBytes_def metaChars_def backslash_def)

lemma digit_chars:
  "char_of (48::nat) = CHR ''0''" "char_of (49::nat) = CHR ''1''" "char_of (50::nat) = CHR ''2''"
  "char_of (51::nat) = CHR ''3''" "char_of (52::nat) = CHR ''4''" "char_of (53::nat) = CHR ''5''"
  "char_of (54::nat) = CHR ''6''" "char_of (55::nat) = CHR ''7''" "char_of (56::nat) = CHR ''8''"
  "char_of (57::nat) = CHR ''9''"
  by code_simp+

lemma isDigitChar_decimal: "isDigitChar c \<longleftrightarrow> c \<in> set ''0123456789''"
proof
  assume "isDigitChar c"
  then have b: "48 \<le> (of_char c :: nat) \<and> (of_char c :: nat) \<le> 57"
    by (simp add: isDigitChar_def less_char_def not_less)
  define n :: nat where "n = of_char c"
  have c: "c = char_of n" by (simp add: n_def)
  from b have "n = 48 \<or> n = 49 \<or> n = 50 \<or> n = 51 \<or> n = 52 \<or> n = 53 \<or> n = 54 \<or> n = 55
               \<or> n = 56 \<or> n = 57"
    unfolding n_def[symmetric] by arith
  then have "c = char_of (48::nat) \<or> c = char_of (49::nat) \<or> c = char_of (50::nat)
             \<or> c = char_of (51::nat) \<or> c = char_of (52::nat) \<or> c = char_of (53::nat)
             \<or> c = char_of (54::nat) \<or> c = char_of (55::nat) \<or> c = char_of (56::nat)
             \<or> c = char_of (57::nat)"
    unfolding c by (elim disjE; hypsubst; simp only: simp_thms)
  then have "c = CHR ''0'' \<or> c = CHR ''1'' \<or> c = CHR ''2'' \<or> c = CHR ''3'' \<or> c = CHR ''4''
             \<or> c = CHR ''5'' \<or> c = CHR ''6'' \<or> c = CHR ''7'' \<or> c = CHR ''8'' \<or> c = CHR ''9''"
    unfolding digit_chars .
  then show "c \<in> set ''0123456789''"
    by (simp only: list.set insert_iff empty_iff simp_thms)
next
  assume "c \<in> set ''0123456789''"
  then show "isDigitChar c"
    by (auto simp: isDigitChar_def less_char_def)
qed

lemma isDigit_numericSegment: "isDigit part = numericSegment part"
proof -
  have "list_all isDigitChar part = (set part \<subseteq> set ''0123456789'')"
    unfolding list_all_iff isDigitChar_decimal by blast
  then show ?thesis
    unfolding isDigit_def numericSegment_def by (cases "part = []") simp_all
qed

lemma generalize_source: "generalize part = (if isDigit part then digitToken else QuoteMeta part)"
  unfolding generalize_def isDigit_numericSegment digitToken_bytes QuoteMeta_escapeLiteral ..

lemma lastNumeric_None: "lastNumeric xs = None \<longleftrightarrow> (\<forall>x \<in> set xs. \<not> isDigit x)"
  by (induction xs) (auto split: option.splits)

lemma lastNumeric_Some:
  "lastNumeric xs = Some k \<longleftrightarrow>
     k < length xs \<and> isDigit (xs ! k) \<and> (\<forall>j. k < j \<and> j < length xs \<longrightarrow> \<not> isDigit (xs ! j))"
proof (induction xs arbitrary: k)
  case Nil
  then show ?case by simp
next
  case (Cons x xs)
  show ?case
  proof (cases "lastNumeric xs")
    case None
    then have no: "\<forall>y \<in> set xs. \<not> isDigit y" by (simp add: lastNumeric_None)
    show ?thesis
    proof (cases k)
      case 0
      then show ?thesis using None no by (auto simp: nth_Cons split: nat.splits)
    next
      case (Suc k')
      then show ?thesis using None no by (auto simp: nth_Cons split: nat.splits)
    qed
  next
    case (Some m)
    from Cons.IH[of m] Some have m: "m < length xs" "isDigit (xs ! m)"
      "\<forall>j. m < j \<and> j < length xs \<longrightarrow> \<not> isDigit (xs ! j)" by auto
    show ?thesis
    proof (cases k)
      case 0
      have "\<not> (\<forall>j. 0 < j \<and> j < length (x # xs) \<longrightarrow> \<not> isDigit ((x # xs) ! j))"
        using m(1,2) by (auto intro!: exI[of _ "Suc m"])
      then show ?thesis using Some 0 by auto
    next
      case (Suc k')
      have "(lastNumeric xs = Some k') = (k' < length xs \<and> isDigit (xs ! k') \<and>
              (\<forall>j. k' < j \<and> j < length xs \<longrightarrow> \<not> isDigit (xs ! j)))"
        by (rule Cons.IH)
      moreover have "(\<forall>j. Suc k' < j \<and> j < length (x # xs) \<longrightarrow> \<not> isDigit ((x # xs) ! j))
                     = (\<forall>j. k' < j \<and> j < length xs \<longrightarrow> \<not> isDigit (xs ! j))"
      proof
        assume a: "\<forall>j. Suc k' < j \<and> j < length (x # xs) \<longrightarrow> \<not> isDigit ((x # xs) ! j)"
        show "\<forall>j. k' < j \<and> j < length xs \<longrightarrow> \<not> isDigit (xs ! j)"
        proof (intro allI impI)
          fix j assume "k' < j \<and> j < length xs"
          then have "Suc k' < Suc j \<and> Suc j < length (x # xs)" by simp
          with a have "\<not> isDigit ((x # xs) ! Suc j)" by blast
          then show "\<not> isDigit (xs ! j)" by simp
        qed
      next
        assume a: "\<forall>j. k' < j \<and> j < length xs \<longrightarrow> \<not> isDigit (xs ! j)"
        show "\<forall>j. Suc k' < j \<and> j < length (x # xs) \<longrightarrow> \<not> isDigit ((x # xs) ! j)"
        proof (intro allI impI)
          fix j assume b: "Suc k' < j \<and> j < length (x # xs)"
          then obtain j' where j: "j = Suc j'" by (cases j) auto
          with a b show "\<not> isDigit ((x # xs) ! j)" by simp
        qed
      qed
      ultimately show ?thesis using Some Suc by simp
    qed
  qed
qed

lemma createPattern_loop_eq:
  "createPattern_loop parts i newParts lastIndex =
     (newParts @ map generalize parts,
      (case lastNumeric parts of None \<Rightarrow> lastIndex | Some k \<Rightarrow> i + k))"
  by (induction parts arbitrary: i newParts lastIndex)
     (auto simp: generalize_source split: option.splits)

lemma createPattern_last_numeric:
  assumes "k < length (Split path CHR ''/'')" "isDigit (Split path CHR ''/'' ! k)"
    "\<forall>j. k < j \<and> j < length (Split path CHR ''/'') \<longrightarrow> \<not> isDigit (Split path CHR ''/'' ! j)"
  shows "createPattern path = Join (map generalize (take (Suc k) (Split path CHR ''/''))) ''/''"
proof -
  have "lastNumeric (Split path CHR ''/'') = Some k"
    using assms by (simp add: lastNumeric_Some)
  then show ?thesis
    by (simp add: createPattern_def createPattern_loop_eq take_map)
qed

lemma Split_nonempty: "Split s sep \<noteq> []"
  by (induction s) (auto split: list.splits)

lemma Join_Cons: "Join (x # xs) sep = x @ (if xs = [] then [] else sep @ Join xs sep)"
  by (cases xs) auto

lemma Join_Split: "Join (Split s c) [c] = s"
proof (induction s)
  case Nil
  then show ?case by simp
next
  case (Cons x xs)
  obtain y ys where s: "Split xs c = y # ys"
    using Split_nonempty[of xs c] by (cases "Split xs c") auto
  show ?case using Cons.IH s by (auto simp: Join_Cons split: if_splits)
qed

lemma Join_append:
  "xs \<noteq> [] \<Longrightarrow> ys \<noteq> [] \<Longrightarrow> Join (xs @ ys) sep = Join xs sep @ sep @ Join ys sep"
  by (induction xs) (auto simp: Join_Cons)

lemma reInt_MatchString_append: "reInt_MatchString s \<Longrightarrow> reInt_MatchString (pre @ s)"
  by (induction pre) auto

lemma not_digit_slash: "\<not> isDigitChar CHR ''/''"
  by (simp add: isDigitChar_def)

lemma reInt_at_digits:
  assumes "isDigit d" "tl' = [] \<or> hd tl' = CHR ''/''"
  shows "reInt_at (CHR ''/'' # d @ tl')"
proof -
  from assms(1) have d: "d \<noteq> []" "\<forall>c \<in> set d. isDigitChar c"
    by (auto simp: isDigit_def list_all_iff split: if_splits)
  have t: "takeWhile isDigitChar (d @ tl') = d @ takeWhile isDigitChar tl'"
    using d(2) by (simp add: takeWhile_append2)
  have dr: "dropWhile isDigitChar (d @ tl') = dropWhile isDigitChar tl'"
    using d(2) by (simp add: dropWhile_append2)
  have dt: "dropWhile isDigitChar tl' = tl'"
    using assms(2) not_digit_slash by (cases tl') auto
  have "reInt_at (CHR ''/'' # d @ tl') =
          (d @ takeWhile isDigitChar tl' \<noteq> [] \<and>
           (case tl' of [] \<Rightarrow> True | c # _ \<Rightarrow> c = CHR ''?'' \<or> c = CHR ''/''))"
    by (simp add: reInt_at_def t dr dt)
  then show ?thesis
    using d(1) assms(2) by (cases tl') auto
qed

lemma numeric_segment_matches:
  assumes "0 < k" "k < length (Split path CHR ''/'')" "isDigit (Split path CHR ''/'' ! k)"
  shows "reInt_MatchString path"
proof -
  let ?parts = "Split path CHR ''/''"
  have tk: "take k ?parts \<noteq> []" using assms(1,2) by auto
  have dk: "drop k ?parts = ?parts ! k # drop (Suc k) ?parts"
    using assms(2) by (simp add: Cons_nth_drop_Suc)
  have "path = Join (take k ?parts @ drop k ?parts) ''/''"
    by (simp add: Join_Split)
  also have "\<dots> = Join (take k ?parts) ''/'' @ ''/'' @ Join (drop k ?parts) ''/''"
    using tk dk by (subst Join_append) auto
  also have "Join (drop k ?parts) ''/'' =
      ?parts ! k @ (if drop (Suc k) ?parts = [] then [] else ''/'' @ Join (drop (Suc k) ?parts) ''/'')"
    unfolding dk by (rule Join_Cons)
  finally have p: "path = Join (take k ?parts) ''/'' @
      (CHR ''/'' # ?parts ! k @
        (if drop (Suc k) ?parts = [] then [] else ''/'' @ Join (drop (Suc k) ?parts) ''/''))"
    by simp
  have "reInt_at (CHR ''/'' # ?parts ! k @
        (if drop (Suc k) ?parts = [] then [] else ''/'' @ Join (drop (Suc k) ?parts) ''/''))"
    by (rule reInt_at_digits[OF assms(3)]) simp
  then have "reInt_MatchString (CHR ''/'' # ?parts ! k @
        (if drop (Suc k) ?parts = [] then [] else ''/'' @ Join (drop (Suc k) ?parts) ''/''))"
    by simp
  from reInt_MatchString_append[OF this] p show ?thesis by metis
qed

lemma processURL_passed:
  assumes "applyFilters L p (Path u) (urlParams u) = (True, pa)"
  shows "processURL L p u =
           storeURL pa (urlHost u) (Path u) (urlParams u) (newNames p (urlParams u))"
    and "urlMap pa = urlMap p" and "paramsSeen pa = paramsSeen p"
    and "patternsSeen pa = patternsSeen p"
proof -
  show "processURL L p u =
           storeURL pa (urlHost u) (Path u) (urlParams u) (newNames p (urlParams u))"
    using assms by (simp add: processURL_storeURL)
  from applyFilters_config[OF assms] have pa: "pa = p\<lparr>contentPrefixes := contentPrefixes pa\<rparr>" .
  show "urlMap pa = urlMap p" "paramsSeen pa = paramsSeen p" "patternsSeen pa = patternsSeen p"
    by (subst pa, simp)+
qed

lemma newNames_nonempty:
  "0 < length (newNames p params) \<longleftrightarrow> list_ex (\<lambda>name. name \<notin> paramsSeen p) (map fst params)"
  by (auto simp: newNames_def list_ex_iff filter_empty_conv)

lemma compareParams_list_ex:
  "compareParams existing new =
     list_ex (\<lambda>key. key \<notin> (\<Union>ps \<in> set existing. set (map fst ps))) (map fst new)"
  by (simp add: compareParams_iff list_ex_iff)

lemma existing_path_general:
  assumes f: "applyFilters L p (Path u) (urlParams u) = (True, pa)"
      and e: "map_of (hostPaths (urlMap p) (urlHost u)) (Path u) = Some existing"
  shows "processURL L p u =
       (if list_ex (\<lambda>name. name \<notin> paramsSeen p) (map fst (urlParams u))
        then (True, pa\<lparr>paramsSeen := paramsSeen p \<union> set (map fst (urlParams u)),
                       urlMap := setPath (urlMap p) (urlHost u) (Path u)
                                   (existing @ [urlParams u])\<rparr>)
        else if urlParams u \<noteq> [] \<and>
                list_ex (\<lambda>key. key \<notin> (\<Union>ps \<in> set existing. set (map fst ps)))
                  (map fst (urlParams u))
        then (True, pa\<lparr>urlMap := setPath (urlMap p) (urlHost u) (Path u)
                                   (existing @ [urlParams u])\<rparr>)
        else (False, pa))"
proof -
  note pp = processURL_passed[OF f]
  have e': "map_of (hostPaths (urlMap pa) (urlHost u)) (Path u) = Some existing"
    using e pp(2) by simp
  show ?thesis
  proof (cases "list_ex (\<lambda>name. name \<notin> paramsSeen p) (map fst (urlParams u))")
    case True
    then have n: "0 < length (newNames p (urlParams u))"
      using newNames_nonempty[of p "urlParams u"] by simp
    show ?thesis
      unfolding pp(1) storeURL_existing[OF e']
      using True n pp(2,3) set_newNames[of p "urlParams u"] by simp
  next
    case False
    then have n: "newNames p (urlParams u) = []"
      using newNames_nonempty[of p "urlParams u"] by simp
    have id: "pa\<lparr>paramsSeen := paramsSeen pa\<rparr> = pa" by simp
    show ?thesis
      unfolding pp(1) storeURL_existing[OF e'] n
      using False pp(2) by (simp add: compareParams_list_ex)
  qed
qed

lemma new_numeric_path_general:
  assumes f: "applyFilters L p (Path u) (urlParams u) = (True, pa)"
      and n: "map_of (hostPaths (urlMap p) (urlHost u)) (Path u) = None"
      and k: "0 < k" "k < length (Split (Path u) CHR ''/'')"
             "isDigit (Split (Path u) CHR ''/'' ! k)"
             "\<forall>j. k < j \<and> j < length (Split (Path u) CHR ''/'') \<longrightarrow>
                   \<not> isDigit (Split (Path u) CHR ''/'' ! j)"
  shows "reInt_MatchString (Path u)"
    and "createPattern (Path u) =
           Join (map generalize (take (Suc k) (Split (Path u) CHR ''/''))) ''/''"
    and "createPattern (Path u) \<in> patternsSeen p \<Longrightarrow>
           \<not> fst (processURL L p u)
           \<and> patternsSeen (snd (processURL L p u)) = patternsSeen p
           \<and> map_of (hostPaths (urlMap (snd (processURL L p u))) (urlHost u)) (Path u) = None"
    and "createPattern (Path u) \<notin> patternsSeen p \<Longrightarrow>
           fst (processURL L p u)
           \<and> patternsSeen (snd (processURL L p u)) = insert (createPattern (Path u)) (patternsSeen p)
           \<and> map_of (hostPaths (urlMap (snd (processURL L p u))) (urlHost u)) (Path u)
               = Some (if urlParams u \<noteq> [] then [urlParams u] else [])"
proof -
  note pp = processURL_passed[OF f]
  have n': "map_of (hostPaths (urlMap pa) (urlHost u)) (Path u) = None"
    using n pp(2) by simp
  show m: "reInt_MatchString (Path u)"
    using k(1,2,3) by (rule numeric_segment_matches)
  show "createPattern (Path u) =
           Join (map generalize (take (Suc k) (Split (Path u) CHR ''/''))) ''/''"
    using k(2,3,4) by (rule createPattern_last_numeric)
  show "createPattern (Path u) \<in> patternsSeen p \<Longrightarrow>
           \<not> fst (processURL L p u)
           \<and> patternsSeen (snd (processURL L p u)) = patternsSeen p
           \<and> map_of (hostPaths (urlMap (snd (processURL L p u))) (urlHost u)) (Path u) = None"
    unfolding pp(1) storeURL_new_path[OF n']
    using m pp(4) n' by (simp add: withHost_fields hostPaths_withHost)
  show "createPattern (Path u) \<notin> patternsSeen p \<Longrightarrow>
           fst (processURL L p u)
           \<and> patternsSeen (snd (processURL L p u)) = insert (createPattern (Path u)) (patternsSeen p)
           \<and> map_of (hostPaths (urlMap (snd (processURL L p u))) (urlHost u)) (Path u)
               = Some (if urlParams u \<noteq> [] then [urlParams u] else [])"
    unfolding pp(1) storeURL_new_path[OF n']
    using m pp(4) by (simp add: hostPaths_setPath_same update_conv')
qed

section \<open>The command-line processor follows the library processor\<close>

text \<open>
  \<open>internal/processor\<close> repeats the logic of \<open>uro.go\<close> over the filter package.
  From the same state the two process a line in the same way: \<open>ProcessLine\<close> does
  not panic and leaves the command-line processor in the same state as \<open>Process\<close>
  leaves the library processor (\<open>cli_processor_simulates\<close>). The processors built
  without options start in the same state (\<open>plain_sameState\<close>).
\<close>

lemma checkContent_RemoveContent:
  "checkContent p path =
     (fst (RemoveContentFilter_Apply (contentPrefixes p) path),
      p\<lparr>contentPrefixes := snd (RemoveContentFilter_Apply (contentPrefixes p) path)\<rparr>)"
  by (simp add: checkContent_def RemoveContentFilter_Apply_def split: option.splits)

lemma Whitelist_same:
  "WhitelistFilter_Apply L path params \<lparr>Strict = strict p, ExtList = extList p, VulnParams = v\<rparr>
     = checkWhitelist L p path"
  by (simp add: WhitelistFilter_Apply_def checkExt_def checkWhitelist_def Let_def)

lemma Blacklist_same:
  "BlacklistFilter_Apply L path params \<lparr>Strict = strict p, ExtList = extList p, VulnParams = v\<rparr>
     = checkBlacklist L p path"
  by (simp add: BlacklistFilter_Apply_def checkExt_def checkBlacklist_def Let_def)

lemma Vuln_same:
  "VulnParamFilter_Apply path params \<lparr>Strict = s, ExtList = e, VulnParams = vulnParams\<rparr>
     = checkVuln params"
  by (simp add: VulnParamFilter_Apply_def checkVuln_def)

lemma checkVuln_empty: "checkVuln [] = False"
  by (simp add: checkVuln_def)

lemma Apply_same:
  "Apply L f (contentPrefixes p) path params
      (Some \<lparr>Strict = strict p, ExtList = extList p, VulnParams = vulnParams\<rparr>)
     = Some (fst (applyFilter L p (Name f) path params),
             contentPrefixes (snd (applyFilter L p (Name f) path params)))"
  by (cases f)
     (simp_all add: Apply_def applyFilter_def Whitelist_same Blacklist_same Vuln_same
        checkContent_RemoveContent checkVuln_empty)


lemma applyFilter_fields:
  "strict (snd (applyFilter L p f path params)) = strict p"
  "extList (snd (applyFilter L p f path params)) = extList p"
  by (simp_all add: applyFilter_def checkContent_def split: option.splits)

lemma URLProcessor_applyFilters_loop_same:
  "removeContent_prefixes c = contentPrefixes p \<Longrightarrow>
   filterMeta c = Some \<lparr>Strict = strict p, ExtList = extList p, VulnParams = vulnParams\<rparr> \<Longrightarrow>
   URLProcessor_applyFilters_loop L fs c path params =
     Some (fst (applyFilters_loop L (map Name fs) p path params),
           c\<lparr>removeContent_prefixes :=
                contentPrefixes (snd (applyFilters_loop L (map Name fs) p path params))\<rparr>)"
proof (induction fs arbitrary: c p)
  case Nil
  then show ?case by simp
next
  case (Cons f fs)
  obtain ok p' where a: "applyFilter L p (Name f) path params = (ok, p')"
    by (cases "applyFilter L p (Name f) path params")
  have ap: "Apply L f (removeContent_prefixes c) path params (filterMeta c)
              = Some (ok, contentPrefixes p')"
    using Apply_same[of L f p path params] a Cons.prems by simp
  show ?case
  proof (cases ok)
    case False
    then show ?thesis using ap a by simp
  next
    case True
    have f1: "strict p' = strict p" "extList p' = extList p"
      using applyFilter_fields[of L p "Name f" path params] a by simp_all
    have ih: "URLProcessor_applyFilters_loop L fs (c\<lparr>removeContent_prefixes := contentPrefixes p'\<rparr>)
                 path params =
       Some (fst (applyFilters_loop L (map Name fs) p' path params),
             c\<lparr>removeContent_prefixes := contentPrefixes p'\<rparr>
              \<lparr>removeContent_prefixes :=
                 contentPrefixes (snd (applyFilters_loop L (map Name fs) p' path params))\<rparr>)"
      by (rule Cons.IH) (simp_all add: f1 Cons.prems)
    show ?thesis using True ap a ih by simp
  qed
qed

lemma processURL_fields:
  assumes "processURL L p u = (kept, p')"
  shows "strict p' = strict p \<and> extList p' = extList p \<and> filters p' = filters p
         \<and> keepSlash p' = keepSlash p"
proof -
  obtain ok pa where f: "applyFilters L p (Path u) (urlParams u) = (ok, pa)"
    by (cases "applyFilters L p (Path u) (urlParams u)")
  from applyFilters_config[OF f] have pa: "pa = p\<lparr>contentPrefixes := contentPrefixes pa\<rparr>" .
  have k: "strict pa = strict p" "extList pa = extList p" "filters pa = filters p"
    "keepSlash pa = keepSlash p" by (subst pa, simp)+
  show ?thesis
  proof (cases ok)
    case False
    then show ?thesis using assms f k by (auto simp: processURL_storeURL)
  next
    case True
    then have "storeURL pa (urlHost u) (Path u) (urlParams u) (newNames p (urlParams u))
                 = (kept, p')"
      using assms f by (simp add: processURL_storeURL)
    from storeURL_config[OF this] k show ?thesis by simp
  qed
qed

lemma lift_fields:
  "urlMap_cli (lift c q) = urlMap q" "paramsSeen_cli (lift c q) = paramsSeen q"
  "patternsSeen_cli (lift c q) = patternsSeen q"
  "removeContent_prefixes (lift c q) = contentPrefixes q"
  "config (lift c q) = config c" "activeFilters (lift c q) = activeFilters c"
  "filterMeta (lift c q) = filterMeta c"
  by (simp_all add: lift_def)

lemma lift_updates:
  "(lift c q)\<lparr>urlMap_cli := m\<rparr> = lift c (q\<lparr>urlMap := m\<rparr>)"
  "(lift c q)\<lparr>paramsSeen_cli := s\<rparr> = lift c (q\<lparr>paramsSeen := s\<rparr>)"
  "(lift c q)\<lparr>patternsSeen_cli := t\<rparr> = lift c (q\<lparr>patternsSeen := t\<rparr>)"
  by (simp_all add: lift_def)

lemma addNewPath_lift:
  "URLProcessor_addNewPath (lift c q) host path params = lift c (addNewPath q host path params)"
  by (simp add: URLProcessor_addNewPath_def addNewPath_def Let_def lift_fields lift_updates)

lemma lift_content:
  "sameState c p \<Longrightarrow> c\<lparr>removeContent_prefixes := cp\<rparr> = lift c (p\<lparr>contentPrefixes := cp\<rparr>)"
  by (simp add: lift_def sameState_def)

lemma URLProcessor_processURL_store:
  "URLProcessor_processURL L p u =
     (case URLProcessor_applyFilters L p (Path u) (paramsToMap (RawQuery u)) of
        None \<Rightarrow> None
      | Some (False, p1) \<Rightarrow> Some p1
      | Some (True, p1) \<Rightarrow>
          URLProcessor_store p1 (BuildHost u) (Path u) (paramsToMap (RawQuery u))
            (filter (\<lambda>param. param \<notin> paramsSeen_cli p) (map fst (paramsToMap (RawQuery u)))))"
  unfolding URLProcessor_processURL_def URLProcessor_store_def Let_def ..


lemma URLProcessor_store_lift:
  "URLProcessor_store (lift c q) host path params newParams =
     Some (lift c (snd (storeURL q host path params newParams)))"
proof -
  define q2 where "q2 = q\<lparr>paramsSeen := foldl (\<lambda>s param. insert param s) (paramsSeen q) newParams\<rparr>"
  define q3 where "q3 = (if map_of (urlMap q2) host = None
                         then q2\<lparr>urlMap := AList.update host [] (urlMap q2)\<rparr> else q2)"
  have c2: "(lift c q)\<lparr>paramsSeen_cli :=
               foldl (\<lambda>s param. insert param s) (paramsSeen_cli (lift c q)) newParams\<rparr> = lift c q2"
    by (simp add: q2_def lift_fields lift_updates)
  have c3: "(if map_of (urlMap_cli (lift c q2)) host = None
             then (lift c q2)\<lparr>urlMap_cli := AList.update host [] (urlMap_cli (lift c q2))\<rparr>
             else lift c q2) = lift c q3"
    by (simp add: q3_def lift_fields lift_updates)
  have L: "URLProcessor_store (lift c q) host path params newParams =
     (case map_of (hostPaths (urlMap q3) host) path of
           None \<Rightarrow>
             if reInt_MatchString path
             then (if createPattern path \<in> patternsSeen q3 then Some (lift c q3)
                   else Some (lift c (addNewPath
                              (q3\<lparr>patternsSeen := insert (createPattern path) (patternsSeen q3)\<rparr>)
                              host path params)))
             else Some (lift c (addNewPath q3 host path params))
         | Some existing \<Rightarrow>
             if 0 < length newParams
             then Some (lift c (q3\<lparr>urlMap := setPath (urlMap q3) host path (existing @ [params])\<rparr>))
             else if 0 < length params \<and> compareParams existing params
             then Some (lift c (q3\<lparr>urlMap := setPath (urlMap q3) host path (existing @ [params])\<rparr>))
             else Some (lift c q3))"
    unfolding URLProcessor_store_def Let_def c2 c3
    by (simp only: lift_fields lift_updates addNewPath_lift)
  have R: "storeURL q host path params newParams =
     (case map_of (hostPaths (urlMap q3) host) path of
           None \<Rightarrow>
             if reInt_MatchString path
             then (if createPattern path \<in> patternsSeen q3 then (False, q3)
                   else (True, addNewPath
                              (q3\<lparr>patternsSeen := insert (createPattern path) (patternsSeen q3)\<rparr>)
                              host path params))
             else (True, addNewPath q3 host path params)
         | Some existing \<Rightarrow>
             if 0 < length newParams
             then (True, q3\<lparr>urlMap := setPath (urlMap q3) host path (existing @ [params])\<rparr>)
             else if 0 < length params \<and> compareParams existing params
             then (True, q3\<lparr>urlMap := setPath (urlMap q3) host path (existing @ [params])\<rparr>)
             else (False, q3))"
    unfolding storeURL_def Let_def q3_def q2_def ..
  show ?thesis
    unfolding L R
    by (cases "map_of (hostPaths (urlMap q3) host) path") simp_all
qed


lemma URLProcessor_processURL_same:
  assumes s: "sameState c p"
  shows "URLProcessor_processURL L c u = Some (lift c (snd (processURL L p u)))"
proof -
  obtain ok pa where f: "applyFilters L p (Path u) (urlParams u) = (ok, pa)"
    by (cases "applyFilters L p (Path u) (urlParams u)")
  from applyFilters_config[OF f] have pa: "pa = p\<lparr>contentPrefixes := contentPrefixes pa\<rparr>" .
  have "c\<lparr>removeContent_prefixes := contentPrefixes pa\<rparr>
          = lift c (p\<lparr>contentPrefixes := contentPrefixes pa\<rparr>)"
    by (rule lift_content[OF s])
  with pa have cpa: "c\<lparr>removeContent_prefixes := contentPrefixes pa\<rparr> = lift c pa" by simp
  have names: "map Name (activeFilters c) = filters p" using s by (simp add: sameState_def)
  have "URLProcessor_applyFilters_loop L (activeFilters c) c (Path u) (paramsToMap (RawQuery u))
          = Some (ok, c\<lparr>removeContent_prefixes := contentPrefixes pa\<rparr>)"
    using URLProcessor_applyFilters_loop_same[of c p L "activeFilters c" "Path u"
            "paramsToMap (RawQuery u)"] s f
    by (simp add: names applyFilters_def urlParams_def sameState_def)
  then have cf: "URLProcessor_applyFilters L c (Path u) (paramsToMap (RawQuery u)) =
              Some (ok, lift c pa)"
    by (simp add: URLProcessor_applyFilters_def cpa)
  have seen: "paramsSeen_cli c = paramsSeen p" using s by (simp add: sameState_def)
  have nn: "filter (\<lambda>param. param \<notin> paramsSeen_cli c) (map fst (paramsToMap (RawQuery u)))
              = newNames p (urlParams u)"
    by (simp add: seen newNames_def urlParams_def)
  have h: "BuildHost u = urlHost u" by (simp add: BuildHost_def urlHost_def)
  have q: "paramsToMap (RawQuery u) = urlParams u" by (simp add: urlParams_def)
  have p: "processURL L p u =
             (if ok then storeURL pa (urlHost u) (Path u) (urlParams u) (newNames p (urlParams u))
              else (False, pa))"
    using f by (simp add: processURL_storeURL)
  show ?thesis
  proof (cases ok)
    case False
    then show ?thesis
      unfolding URLProcessor_processURL_store cf p by simp
  next
    case True
    then show ?thesis
      unfolding URLProcessor_processURL_store cf p nn h
      by (simp add: q URLProcessor_store_lift)
  qed
qed


lemma lift_sameState:
  assumes s: "sameState c p"
    and f: "strict q = strict p" "extList q = extList p" "filters q = filters p"
           "keepSlash q = keepSlash p"
  shows "sameState (lift c q) q"
  using s f by (simp add: sameState_def lift_def)

lemma cli_processor_simulates:
  assumes s: "sameState c p"
  shows "\<exists>c'. ProcessLine L c line = Some c' \<and> sameState c' (snd (Process L p line))"
proof -
  define r where "r = (if \<not> keepSlash p then TrimSuffix (TrimSpace L (ToValidUTF8 L line [])) ''/''
                       else TrimSpace L (ToValidUTF8 L line []))"
  have canon: "NormalizePath L (SanitizeUTF8 L line) (KeepSlash_cfg (config c)) = r"
    using s by (simp add: NormalizePath_def SanitizeUTF8_def sameState_def Let_def r_def)
  have P: "Process L p line =
             (if r = [] then (False, p)
              else (case url_Parse L r of
                      None \<Rightarrow> (False, p)
                    | Some u \<Rightarrow> if Host u = [] then (False, p) else processURL L p u))"
    unfolding Process_def Let_def r_def ..
  have C: "ProcessLine L c line =
             (if r = [] then Some c
              else (case url_Parse L r of
                      None \<Rightarrow> Some c
                    | Some u \<Rightarrow> if Host u = [] then Some c else URLProcessor_processURL L c u))"
    unfolding ProcessLine_def Let_def canon ..
  have step: "sameState (lift c (snd (processURL L p u))) (snd (processURL L p u))" for u
    using processURL_fields[of L p u "fst (processURL L p u)" "snd (processURL L p u)"]
    by (intro lift_sameState[OF s]) simp_all
  show ?thesis
  proof (cases "r = []")
    case True
    then show ?thesis using s by (simp add: P C)
  next
    case False
    show ?thesis
    proof (cases "url_Parse L r")
      case None
      then show ?thesis using s False by (simp add: P C)
    next
      case (Some u)
      show ?thesis
      proof (cases "Host u = []")
        case True
        then show ?thesis using s False Some by (simp add: P C)
      next
        case h: False
        have "ProcessLine L c line = Some (lift c (snd (processURL L p u)))"
          using False Some h by (simp add: C URLProcessor_processURL_same[OF s])
        moreover have "Process L p line = processURL L p u"
          using False Some h by (simp add: P)
        ultimately show ?thesis using step[of u] by simp
      qed
    qed
  qed
qed

lemma New_plainConfig: "New asciiLib plainConfig = Inr plainURLProcessor"
  by (simp add: New_def plainConfig_def plainURLProcessor_def URLProcessor_setupFilters_def
        CleanArgs_def Let_def IsWhitelistMode_def GetExtList_def NewRegistry_def Register_def
        Registry_Get_def Has_def)

lemma fresh_fields:
  "urlMap freshProcessor = []" "paramsSeen freshProcessor = {}"
  "patternsSeen freshProcessor = {}" "contentPrefixes freshProcessor = []"
  "filters freshProcessor = [''removecontent'', ''blacklist'']"
  "strict freshProcessor = False" "extList freshProcessor = defaultBlacklist"
  "keepSlash freshProcessor = False"
  by (simp_all add: freshProcessor_def NewProcessor_def setupFilters_def cleanArgs_def Let_def)

lemma plain_sameState: "sameState plainURLProcessor freshProcessor"
  by (simp add: sameState_def fresh_fields plainURLProcessor_def plainConfig_def)

section \<open>Submitting a line twice\<close>

text \<open>
  C7. For every line and every processor state: if \<open>Process\<close> keeps the line, then
  processing the same line again, right after, does not keep it and returns the
  processor exactly as it was, so nothing is added to the store; reading the line
  twice in a row counts one kept URL.
\<close>

theorem resubmitted_line_dropped:
  assumes "Process L p rawURL = (True, p1)"
  shows "Process L p1 rawURL = (False, p1)
         \<and> Results (snd (Process L p1 rawURL)) = Results p1
         \<and> ProcessReader L p [rawURL, rawURL] = (1, p1)"
proof -
  let ?r3 = "\<lambda>q. if \<not> keepSlash q then TrimSuffix (TrimSpace L (ToValidUTF8 L rawURL [])) ''/''
                  else TrimSpace L (ToValidUTF8 L rawURL [])"
  from assms obtain u where
    u: "url_Parse L (?r3 p) = Some u" and r: "processURL L p u = (True, p1)"
    by (auto simp: Process_def Let_def split: if_splits option.splits)
  have ne: "?r3 p \<noteq> []" "Host u \<noteq> []"
    using assms u by (auto simp: Process_def Let_def split: if_splits option.splits)
  have k: "keepSlash p1 = keepSlash p" using r by (rule processURL_keepSlash)
  have again: "Process L p1 rawURL = (False, p1)"
    using u ne k resubmitted_url_dropped[OF r] by (simp add: Process_def Let_def)
  then show ?thesis using assms by (simp add: ProcessReader_def)
qed

theorem resubmitted_line_dropped_witness:
  "Process asciiLib freshProcessor ''http://h/p?a=1''
     = (True, snd (Process asciiLib freshProcessor ''http://h/p?a=1''))
   \<and> Process asciiLib (snd (Process asciiLib freshProcessor ''http://h/p?a=1'')) ''http://h/p?a=1''
     = (False, snd (Process asciiLib freshProcessor ''http://h/p?a=1''))
   \<and> fst (ProcessReader asciiLib freshProcessor [''http://h/p?a=1'', ''http://h/p?a=1'']) = 1
   \<and> Results (snd (Process asciiLib freshProcessor ''http://h/p?a=1'')) = [''http://h/p?a=1'']"
proof -
  have k: "fst (Process asciiLib freshProcessor ''http://h/p?a=1'')" by code_simp
  have r: "Process asciiLib freshProcessor ''http://h/p?a=1''
             = (True, snd (Process asciiLib freshProcessor ''http://h/p?a=1''))"
    using k by (cases "Process asciiLib freshProcessor ''http://h/p?a=1''") simp
  have s: "Results (snd (Process asciiLib freshProcessor ''http://h/p?a=1'')) = [''http://h/p?a=1'']"
    by code_simp
  from resubmitted_line_dropped[OF r] r s show ?thesis by simp
qed

section \<open>What a skipped line changes\<close>

text \<open>
  C1, as the code has it. Let \<open>processURL\<close> return \<open>(kept, p')\<close> from state \<open>p\<close>.
  The options and filter configuration never change, and the content-prefix cache is
  the one the filter chain left (the content filter may have appended a prefix, kept
  or not). A skipped line leaves the seen-pattern set, the path lists of every host,
  \<open>Results\<close> and \<open>Count\<close> as they were. A line the filter chain rejects leaves the
  store and the seen parameter names as they were, and so does a line dropped as a
  redundant parameter set of a path already stored. A line that passes the filter chain
  adds all its parameter names to the seen parameter names, whether it is kept or then
  rejected by the numeric-pattern check. A kept line has its path in the store.
\<close>

theorem skipped_line_effects:
  assumes r: "processURL L p u = (kept, p')"
  shows "(opts p' = opts p \<and> extList p' = extList p \<and> filters p' = filters p
          \<and> strict p' = strict p \<and> keepSlash p' = keepSlash p)
    \<and> contentPrefixes p' = contentPrefixes (snd (applyFilters L p (Path u) (urlParams u)))
    \<and> (\<not> kept \<longrightarrow> patternsSeen p' = patternsSeen p \<and> Results p' = Results p
                    \<and> Count p' = Count p
                    \<and> (\<forall>h. hostPaths (urlMap p') h = hostPaths (urlMap p) h))
    \<and> (\<not> fst (applyFilters L p (Path u) (urlParams u)) \<longrightarrow>
          \<not> kept \<and> urlMap p' = urlMap p \<and> paramsSeen p' = paramsSeen p)
    \<and> (\<not> kept \<and> map_of (hostPaths (urlMap p) (urlHost u)) (Path u) \<noteq> None \<longrightarrow>
          urlMap p' = urlMap p \<and> paramsSeen p' = paramsSeen p)
    \<and> (fst (applyFilters L p (Path u) (urlParams u)) \<longrightarrow>
          paramsSeen p' = paramsSeen p \<union> set (map fst (urlParams u)))
    \<and> (kept \<longrightarrow> map_of (hostPaths (urlMap p') (urlHost u)) (Path u) \<noteq> None)"
proof -
  obtain ok pa where f: "applyFilters L p (Path u) (urlParams u) = (ok, pa)"
    by (cases "applyFilters L p (Path u) (urlParams u)")
  from applyFilters_config[OF f] have pa: "pa = p\<lparr>contentPrefixes := contentPrefixes pa\<rparr>" .
  have paf: "opts pa = opts p" "extList pa = extList p" "filters pa = filters p"
    "strict pa = strict p" "keepSlash pa = keepSlash p" "urlMap pa = urlMap p"
    "paramsSeen pa = paramsSeen p" "patternsSeen pa = patternsSeen p"
    by (subst pa, simp)+
  have rc: "Results pa = Results p" "Count pa = Count p"
    by (subst pa, simp)+
  show ?thesis
  proof (cases ok)
    case False
    then have "kept = False" "p' = pa" using r f by (auto simp: processURL_storeURL)
    then show ?thesis using f False paf rc by simp
  next
    case True
    then have s: "storeURL pa (urlHost u) (Path u) (urlParams u) (newNames p (urlParams u))
                    = (kept, p')"
      using r f by (simp add: processURL_storeURL)
    have sn: "paramsSeen p \<union> set (newNames p (urlParams u))
                = paramsSeen p \<union> set (map fst (urlParams u))"
      by (rule set_newNames)
    have c1: "opts p' = opts p \<and> extList p' = extList p \<and> filters p' = filters p
          \<and> strict p' = strict p \<and> keepSlash p' = keepSlash p"
      using storeURL_config[OF s] paf by simp
    have c2: "contentPrefixes p' = contentPrefixes (snd (applyFilters L p (Path u) (urlParams u)))"
      using storeURL_config[OF s] f by simp
    have c3: "\<not> kept \<longrightarrow> patternsSeen p' = patternsSeen p \<and> Results p' = Results p
                    \<and> Count p' = Count p
                    \<and> (\<forall>h. hostPaths (urlMap p') h = hostPaths (urlMap p) h)"
    proof
      assume "\<not> kept"
      with s have s': "storeURL pa (urlHost u) (Path u) (urlParams u)
                         (newNames p (urlParams u)) = (False, p')" by simp
      from storeURL_skipped[OF s'] show "patternsSeen p' = patternsSeen p \<and> Results p' = Results p
                    \<and> Count p' = Count p
                    \<and> (\<forall>h. hostPaths (urlMap p') h = hostPaths (urlMap p) h)"
        using paf rc by simp
    qed
    have c4: "\<not> fst (applyFilters L p (Path u) (urlParams u)) \<longrightarrow>
          \<not> kept \<and> urlMap p' = urlMap p \<and> paramsSeen p' = paramsSeen p"
      using f True by simp
    have c5: "\<not> kept \<and> map_of (hostPaths (urlMap p) (urlHost u)) (Path u) \<noteq> None \<longrightarrow>
          urlMap p' = urlMap p \<and> paramsSeen p' = paramsSeen p"
    proof
      assume a: "\<not> kept \<and> map_of (hostPaths (urlMap p) (urlHost u)) (Path u) \<noteq> None"
      with s have s': "storeURL pa (urlHost u) (Path u) (urlParams u)
                         (newNames p (urlParams u)) = (False, p')" by simp
      from a paf have "map_of (hostPaths (urlMap pa) (urlHost u)) (Path u) \<noteq> None" by simp
      from storeURL_skipped_existing[OF s' this] have "p' = pa" .
      then show "urlMap p' = urlMap p \<and> paramsSeen p' = paramsSeen p" using paf by simp
    qed
    have c6: "fst (applyFilters L p (Path u) (urlParams u)) \<longrightarrow>
          paramsSeen p' = paramsSeen p \<union> set (map fst (urlParams u))"
      using storeURL_config[OF s] paf sn by simp
    have c7: "kept \<longrightarrow> map_of (hostPaths (urlMap p') (urlHost u)) (Path u) \<noteq> None"
    proof
      assume kept
      with s have s': "storeURL pa (urlHost u) (Path u) (urlParams u)
                         (newNames p (urlParams u)) = (True, p')" by simp
      from storeURL_kept_present[OF s']
      show "map_of (hostPaths (urlMap p') (urlHost u)) (Path u) \<noteq> None" .
    qed
    from c1 c2 c3 c4 c5 c6 c7 show ?thesis by blast
  qed
qed

theorem skipped_line_effects_witness:
  "processURL asciiLib (snd (processURL asciiLib freshProcessor (url_h ''/a/1'' [])))
       (url_h ''/a/2'' ''zz=1'')
     = (False, snd (processURL asciiLib (snd (processURL asciiLib freshProcessor (url_h ''/a/1'' [])))
                      (url_h ''/a/2'' ''zz=1'')))
   \<and> fst (applyFilters asciiLib (snd (processURL asciiLib freshProcessor (url_h ''/a/1'' [])))
            (Path (url_h ''/a/2'' ''zz=1'')) (urlParams (url_h ''/a/2'' ''zz=1'')))
   \<and> paramsSeen (snd (processURL asciiLib (snd (processURL asciiLib freshProcessor (url_h ''/a/1'' [])))
                      (url_h ''/a/2'' ''zz=1'')))
       = paramsSeen (snd (processURL asciiLib freshProcessor (url_h ''/a/1'' []))) \<union> {''zz''}
   \<and> Results (snd (processURL asciiLib (snd (processURL asciiLib freshProcessor (url_h ''/a/1'' [])))
                      (url_h ''/a/2'' ''zz=1'')))
       = Results (snd (processURL asciiLib freshProcessor (url_h ''/a/1'' [])))"
proof -
  let ?p1 = "snd (processURL asciiLib freshProcessor (url_h ''/a/1'' []))"
  let ?u = "url_h ''/a/2'' ''zz=1''"
  have k: "\<not> fst (processURL asciiLib ?p1 ?u)" by code_simp
  have r: "processURL asciiLib ?p1 ?u = (False, snd (processURL asciiLib ?p1 ?u))"
    using k by (cases "processURL asciiLib ?p1 ?u") simp
  have f: "fst (applyFilters asciiLib ?p1 (Path ?u) (urlParams ?u))" by code_simp
  have n: "set (map fst (urlParams ?u)) = {''zz''}" by code_simp
  from skipped_line_effects[OF r] r f n show ?thesis by simp
qed

text \<open>
  The claim fails on the code. After \<open>http://h/a/1\<close> is kept, the line
  \<open>http://h/a/2?zz=1\<close> passes the filter chain and is rejected by the numeric-pattern
  check, yet \<open>zz\<close> is now in the seen parameter names although no URL with that
  parameter is in the store. And the line \<open>http://h/blog/x.css\<close> is rejected by the
  extension filter after the content filter has put \<open>/blog\<close> in the prefix cache.
\<close>

theorem skipped_line_counterexample:
  "fst (applyFilters asciiLib (snd (processURL asciiLib freshProcessor (url_h ''/a/1'' [])))
          ''/a/2'' (paramsToMap ''zz=1''))
   \<and> \<not> fst (processURL asciiLib (snd (processURL asciiLib freshProcessor (url_h ''/a/1'' [])))
              (url_h ''/a/2'' ''zz=1''))
   \<and> ''zz'' \<notin> paramsSeen (snd (processURL asciiLib freshProcessor (url_h ''/a/1'' [])))
   \<and> ''zz'' \<in> paramsSeen (snd (processURL asciiLib
                 (snd (processURL asciiLib freshProcessor (url_h ''/a/1'' [])))
                 (url_h ''/a/2'' ''zz=1'')))
   \<and> Results (snd (processURL asciiLib
                 (snd (processURL asciiLib freshProcessor (url_h ''/a/1'' [])))
                 (url_h ''/a/2'' ''zz=1''))) = [''http://h/a/1'']
   \<and> \<not> fst (processURL asciiLib freshProcessor (url_h ''/blog/x.css'' []))
   \<and> contentPrefixes freshProcessor = []
   \<and> contentPrefixes (snd (processURL asciiLib freshProcessor (url_h ''/blog/x.css'' [])))
       = [''/blog'']"
  by code_simp

section \<open>A URL whose path is already stored\<close>

text \<open>
  C3. Let the URL pass the filter chain (leaving state \<open>pa\<close>, which is \<open>p\<close> up to the
  prefix cache) and let its path already be stored for its host with the list
  \<open>existing\<close>. If some parameter name of the URL is not yet globally seen, the
  parameter set is appended to the list whatever the list holds, and all its names are
  globally seen afterwards. Otherwise, if the parameter set is not empty and has a key
  that no parameter set of the list has, it is appended too. Otherwise the URL is
  dropped and nothing but the prefix cache can have changed. On a fresh processor,
  \<open>http://h/p?a=1\<close> is kept, then \<open>http://h/p?a=2\<close> is dropped, then
  \<open>http://h/p?a=1&b=2\<close> is kept.
\<close>

theorem existing_path_policy:
  "(applyFilters L p (Path u) (urlParams u) = (True, pa)
     \<and> map_of (hostPaths (urlMap p) (urlHost u)) (Path u) = Some existing \<longrightarrow>
    processURL L p u =
       (if list_ex (\<lambda>name. name \<notin> paramsSeen p) (map fst (urlParams u))
        then (True, pa\<lparr>paramsSeen := paramsSeen p \<union> set (map fst (urlParams u)),
                       urlMap := setPath (urlMap p) (urlHost u) (Path u)
                                   (existing @ [urlParams u])\<rparr>)
        else if urlParams u \<noteq> [] \<and>
                list_ex (\<lambda>key. key \<notin> (\<Union>ps \<in> set existing. set (map fst ps)))
                  (map fst (urlParams u))
        then (True, pa\<lparr>urlMap := setPath (urlMap p) (urlHost u) (Path u)
                                   (existing @ [urlParams u])\<rparr>)
        else (False, pa)))
   \<and> (let r1 = processURL asciiLib freshProcessor (url_h ''/p'' ''a=1'');
           r2 = processURL asciiLib (snd r1) (url_h ''/p'' ''a=2'');
           r3 = processURL asciiLib (snd r2) (url_h ''/p'' ''a=1&b=2'')
       in fst r1 \<and> \<not> fst r2 \<and> fst r3
          \<and> Results (snd r3) = [''http://h/p?a=1'', ''http://h/p?a=1&b=2''])"
proof (rule conjI)
  show "applyFilters L p (Path u) (urlParams u) = (True, pa)
     \<and> map_of (hostPaths (urlMap p) (urlHost u)) (Path u) = Some existing \<longrightarrow>
    processURL L p u =
       (if list_ex (\<lambda>name. name \<notin> paramsSeen p) (map fst (urlParams u))
        then (True, pa\<lparr>paramsSeen := paramsSeen p \<union> set (map fst (urlParams u)),
                       urlMap := setPath (urlMap p) (urlHost u) (Path u)
                                   (existing @ [urlParams u])\<rparr>)
        else if urlParams u \<noteq> [] \<and>
                list_ex (\<lambda>key. key \<notin> (\<Union>ps \<in> set existing. set (map fst ps)))
                  (map fst (urlParams u))
        then (True, pa\<lparr>urlMap := setPath (urlMap p) (urlHost u) (Path u)
                                   (existing @ [urlParams u])\<rparr>)
        else (False, pa))"
    using existing_path_general by blast
  show "let r1 = processURL asciiLib freshProcessor (url_h ''/p'' ''a=1'');
           r2 = processURL asciiLib (snd r1) (url_h ''/p'' ''a=2'');
           r3 = processURL asciiLib (snd r2) (url_h ''/p'' ''a=1&b=2'')
       in fst r1 \<and> \<not> fst r2 \<and> fst r3
          \<and> Results (snd r3) = [''http://h/p?a=1'', ''http://h/p?a=1&b=2'']"
    by code_simp
qed

theorem existing_path_policy_witness:
  "applyFilters asciiLib (snd (processURL asciiLib freshProcessor (url_h ''/p'' ''a=1'')))
       (Path (url_h ''/p'' ''a=2'')) (urlParams (url_h ''/p'' ''a=2''))
     = (True, snd (processURL asciiLib freshProcessor (url_h ''/p'' ''a=1'')))
   \<and> map_of (hostPaths (urlMap (snd (processURL asciiLib freshProcessor (url_h ''/p'' ''a=1''))))
               (urlHost (url_h ''/p'' ''a=2''))) (Path (url_h ''/p'' ''a=2''))
     = Some [[(''a'', ''1'')]]
   \<and> processURL asciiLib (snd (processURL asciiLib freshProcessor (url_h ''/p'' ''a=1'')))
         (url_h ''/p'' ''a=2'')
     = (False, snd (processURL asciiLib freshProcessor (url_h ''/p'' ''a=1'')))"
proof -
  let ?p1 = "snd (processURL asciiLib freshProcessor (url_h ''/p'' ''a=1''))"
  let ?u = "url_h ''/p'' ''a=2''"
  have h1: "applyFilters asciiLib ?p1 (Path ?u) (urlParams ?u) = (True, ?p1)" by code_simp
  have h2: "map_of (hostPaths (urlMap ?p1) (urlHost ?u)) (Path ?u) = Some [[(''a'', ''1'')]]"
    by code_simp
  have c1: "\<not> list_ex (\<lambda>name. name \<notin> paramsSeen ?p1) (map fst (urlParams ?u))" by code_simp
  have c2: "\<not> list_ex (\<lambda>key. key \<notin> (\<Union>ps \<in> set [[(''a'', ''1'')]]. set (map fst ps)))
                (map fst (urlParams ?u))" by code_simp
  from existing_path_policy[of asciiLib ?p1 ?u ?p1 "[[(''a'', ''1'')]]"] h1 h2 c1 c2
  show ?thesis by simp
qed

section \<open>A new path with a numeric segment\<close>

text \<open>
  C4. Let the URL pass the filter chain, let its path be new for its host, and let
  segment \<open>k\<close> of the path split on \<open>/\<close> be its last purely numeric segment, with
  \<open>0 < k\<close> (the segment follows a \<open>/\<close>, as every segment but the first does). Then
  \<open>reInt\<close> matches the path, and the pattern is the first \<open>k + 1\<close> segments, each
  numeric one replaced by the digit-wildcard token (backslash, \<open>d\<close>, \<open>+\<close>) and every
  other one literal-escaped (a backslash before each special character), joined by
  \<open>/\<close>; the numeric test, the token and the escaping are those of \<open>generalize\<close>,
  which is written without \<open>isDigit\<close>, \<open>digitToken\<close> and \<open>QuoteMeta\<close>. If the
  pattern is in the seen-pattern set, which is one set for all hosts, the URL is
  rejected, the set is unchanged and the path stays absent; otherwise the URL is kept,
  the pattern is added to the set and the path is stored with the parameter set, if not
  empty, as its only entry. On a fresh processor \<open>http://h/a/1\<close> is kept,
  \<open>http://h/a/2\<close> is dropped, \<open>http://h/a/1/2\<close> is kept, \<open>http://h/a/1/3\<close> is
  dropped, and so is \<open>http://g/a/7\<close> of another host; the two patterns recorded are
  \<open>/a/\<close> followed by the token, and that followed by \<open>/\<close> and the token. The
  pattern of \<open>/a.b/1\<close> has a backslash before the dot, the pattern of
  \<open>/a/1/b+c/22/z\<close> escapes the \<open>+\<close> and stops after the second token, and each of
  the fourteen special characters gets its backslash. Because of the escaping a segment
  that spells the token is not taken for a number: after \<open>/7/5\<close> the path whose
  first segment is backslash, \<open>d\<close>, \<open>+\<close> and whose second is \<open>5\<close> is kept, and
  \<open>/8/6\<close> is then dropped.
\<close>

theorem numeric_pattern_policy:
  "(applyFilters L p (Path u) (urlParams u) = (True, pa)
     \<and> map_of (hostPaths (urlMap p) (urlHost u)) (Path u) = None
     \<and> 0 < k \<and> k < length (Split (Path u) CHR ''/'')
     \<and> numericSegment (Split (Path u) CHR ''/'' ! k)
     \<and> (\<forall>j. k < j \<and> j < length (Split (Path u) CHR ''/'') \<longrightarrow>
              \<not> numericSegment (Split (Path u) CHR ''/'' ! j))
    \<longrightarrow> reInt_MatchString (Path u)
       \<and> createPattern (Path u)
           = Join (map generalize (take (Suc k) (Split (Path u) CHR ''/''))) ''/''
       \<and> (if createPattern (Path u) \<in> patternsSeen p
           then \<not> fst (processURL L p u)
                \<and> patternsSeen (snd (processURL L p u)) = patternsSeen p
                \<and> map_of (hostPaths (urlMap (snd (processURL L p u))) (urlHost u)) (Path u)
                    = None
           else fst (processURL L p u)
                \<and> patternsSeen (snd (processURL L p u))
                    = insert (createPattern (Path u)) (patternsSeen p)
                \<and> map_of (hostPaths (urlMap (snd (processURL L p u))) (urlHost u)) (Path u)
                    = Some (if urlParams u \<noteq> [] then [urlParams u] else [])))
   \<and> (let r1 = processURL asciiLib freshProcessor (url_h ''/a/1'' []);
           r2 = processURL asciiLib (snd r1) (url_h ''/a/2'' []);
           r3 = processURL asciiLib (snd r2) (url_h ''/a/1/2'' []);
           r4 = processURL asciiLib (snd r3) (url_h ''/a/1/3'' []);
           r5 = processURL asciiLib (snd r4)
                  \<lparr>Scheme = ''http'', Host = ''g'', Path = ''/a/7'', RawQuery = []\<rparr>
       in fst r1 \<and> \<not> fst r2 \<and> fst r3 \<and> \<not> fst r4 \<and> \<not> fst r5
          \<and> Results (snd r5) = [''http://h/a/1'', ''http://h/a/1/2'']
          \<and> patternsSeen (snd r5)
              = {''/a/'' @ [CHR 0x5C] @ ''d+'',
                 ''/a/'' @ [CHR 0x5C] @ ''d+/'' @ [CHR 0x5C] @ ''d+''})
   \<and> (createPattern ''/a.b/1'' = ''/a'' @ [CHR 0x5C] @ ''.b/'' @ [CHR 0x5C] @ ''d+''
      \<and> createPattern ''/a/1/b+c/22/z''
          = ''/a/'' @ [CHR 0x5C] @ ''d+/b'' @ [CHR 0x5C] @ ''+c/'' @ [CHR 0x5C] @ ''d+''
      \<and> createPattern (''/'' @ [CHR 0x5C] @ ''.+*?()|[]{}^$x/1'')
          = ''/'' @ [CHR 0x5C, CHR 0x5C] @ [CHR 0x5C] @ ''.'' @ [CHR 0x5C] @ ''+''
            @ [CHR 0x5C] @ ''*'' @ [CHR 0x5C] @ ''?'' @ [CHR 0x5C] @ ''('' @ [CHR 0x5C] @ '')''
            @ [CHR 0x5C] @ ''|'' @ [CHR 0x5C] @ ''['' @ [CHR 0x5C] @ '']'' @ [CHR 0x5C] @ ''{''
            @ [CHR 0x5C] @ ''}'' @ [CHR 0x5C] @ ''^'' @ [CHR 0x5C] @ ''$'' @ ''x/''
            @ [CHR 0x5C] @ ''d+'')
   \<and> (let q1 = processURL asciiLib freshProcessor (url_h ''/7/5'' []);
           q2 = processURL asciiLib (snd q1) (url_h (''/'' @ [CHR 0x5C] @ ''d+/5'') []);
           q3 = processURL asciiLib (snd q2) (url_h ''/8/6'' [])
       in fst q1 \<and> fst q2 \<and> \<not> fst q3
          \<and> patternsSeen (snd q3)
              = {''/'' @ [CHR 0x5C] @ ''d+/'' @ [CHR 0x5C] @ ''d+'',
                 ''/'' @ [CHR 0x5C, CHR 0x5C] @ ''d'' @ [CHR 0x5C] @ ''+/'' @ [CHR 0x5C] @ ''d+''})"
proof (intro conjI)
  show "applyFilters L p (Path u) (urlParams u) = (True, pa)
     \<and> map_of (hostPaths (urlMap p) (urlHost u)) (Path u) = None
     \<and> 0 < k \<and> k < length (Split (Path u) CHR ''/'')
     \<and> numericSegment (Split (Path u) CHR ''/'' ! k)
     \<and> (\<forall>j. k < j \<and> j < length (Split (Path u) CHR ''/'') \<longrightarrow>
              \<not> numericSegment (Split (Path u) CHR ''/'' ! j))
    \<longrightarrow> reInt_MatchString (Path u)
       \<and> createPattern (Path u)
           = Join (map generalize (take (Suc k) (Split (Path u) CHR ''/''))) ''/''
       \<and> (if createPattern (Path u) \<in> patternsSeen p
           then \<not> fst (processURL L p u)
                \<and> patternsSeen (snd (processURL L p u)) = patternsSeen p
                \<and> map_of (hostPaths (urlMap (snd (processURL L p u))) (urlHost u)) (Path u)
                    = None
           else fst (processURL L p u)
                \<and> patternsSeen (snd (processURL L p u))
                    = insert (createPattern (Path u)) (patternsSeen p)
                \<and> map_of (hostPaths (urlMap (snd (processURL L p u))) (urlHost u)) (Path u)
                    = Some (if urlParams u \<noteq> [] then [urlParams u] else []))"
  proof (intro impI, elim conjE)
    assume a: "applyFilters L p (Path u) (urlParams u) = (True, pa)"
      "map_of (hostPaths (urlMap p) (urlHost u)) (Path u) = None"
      "0 < k" "k < length (Split (Path u) CHR ''/'')"
    assume n: "numericSegment (Split (Path u) CHR ''/'' ! k)"
      "\<forall>j. k < j \<and> j < length (Split (Path u) CHR ''/'') \<longrightarrow>
              \<not> numericSegment (Split (Path u) CHR ''/'' ! j)"
    have d: "isDigit (Split (Path u) CHR ''/'' ! k)"
      "\<forall>j. k < j \<and> j < length (Split (Path u) CHR ''/'') \<longrightarrow>
              \<not> isDigit (Split (Path u) CHR ''/'' ! j)"
      using n by (simp_all only: isDigit_numericSegment)
    note g = new_numeric_path_general[OF a d]
    show "reInt_MatchString (Path u)
       \<and> createPattern (Path u)
           = Join (map generalize (take (Suc k) (Split (Path u) CHR ''/''))) ''/''
       \<and> (if createPattern (Path u) \<in> patternsSeen p
           then \<not> fst (processURL L p u)
                \<and> patternsSeen (snd (processURL L p u)) = patternsSeen p
                \<and> map_of (hostPaths (urlMap (snd (processURL L p u))) (urlHost u)) (Path u)
                    = None
           else fst (processURL L p u)
                \<and> patternsSeen (snd (processURL L p u))
                    = insert (createPattern (Path u)) (patternsSeen p)
                \<and> map_of (hostPaths (urlMap (snd (processURL L p u))) (urlHost u)) (Path u)
                    = Some (if urlParams u \<noteq> [] then [urlParams u] else []))"
      using g(1) g(2) g(3) g(4)
      by (cases "createPattern (Path u) \<in> patternsSeen p") simp_all
  qed
  show "let r1 = processURL asciiLib freshProcessor (url_h ''/a/1'' []);
           r2 = processURL asciiLib (snd r1) (url_h ''/a/2'' []);
           r3 = processURL asciiLib (snd r2) (url_h ''/a/1/2'' []);
           r4 = processURL asciiLib (snd r3) (url_h ''/a/1/3'' []);
           r5 = processURL asciiLib (snd r4)
                  \<lparr>Scheme = ''http'', Host = ''g'', Path = ''/a/7'', RawQuery = []\<rparr>
       in fst r1 \<and> \<not> fst r2 \<and> fst r3 \<and> \<not> fst r4 \<and> \<not> fst r5
          \<and> Results (snd r5) = [''http://h/a/1'', ''http://h/a/1/2'']
          \<and> patternsSeen (snd r5)
              = {''/a/'' @ [CHR 0x5C] @ ''d+'',
                 ''/a/'' @ [CHR 0x5C] @ ''d+/'' @ [CHR 0x5C] @ ''d+''}"
    by code_simp
  show "createPattern ''/a.b/1'' = ''/a'' @ [CHR 0x5C] @ ''.b/'' @ [CHR 0x5C] @ ''d+''"
    by code_simp
  show "createPattern ''/a/1/b+c/22/z''
          = ''/a/'' @ [CHR 0x5C] @ ''d+/b'' @ [CHR 0x5C] @ ''+c/'' @ [CHR 0x5C] @ ''d+''"
    by code_simp
  show "createPattern (''/'' @ [CHR 0x5C] @ ''.+*?()|[]{}^$x/1'')
          = ''/'' @ [CHR 0x5C, CHR 0x5C] @ [CHR 0x5C] @ ''.'' @ [CHR 0x5C] @ ''+''
            @ [CHR 0x5C] @ ''*'' @ [CHR 0x5C] @ ''?'' @ [CHR 0x5C] @ ''('' @ [CHR 0x5C] @ '')''
            @ [CHR 0x5C] @ ''|'' @ [CHR 0x5C] @ ''['' @ [CHR 0x5C] @ '']'' @ [CHR 0x5C] @ ''{''
            @ [CHR 0x5C] @ ''}'' @ [CHR 0x5C] @ ''^'' @ [CHR 0x5C] @ ''$'' @ ''x/''
            @ [CHR 0x5C] @ ''d+''"
    by code_simp
  show "let q1 = processURL asciiLib freshProcessor (url_h ''/7/5'' []);
           q2 = processURL asciiLib (snd q1) (url_h (''/'' @ [CHR 0x5C] @ ''d+/5'') []);
           q3 = processURL asciiLib (snd q2) (url_h ''/8/6'' [])
       in fst q1 \<and> fst q2 \<and> \<not> fst q3
          \<and> patternsSeen (snd q3)
              = {''/'' @ [CHR 0x5C] @ ''d+/'' @ [CHR 0x5C] @ ''d+'',
                 ''/'' @ [CHR 0x5C, CHR 0x5C] @ ''d'' @ [CHR 0x5C] @ ''+/'' @ [CHR 0x5C] @ ''d+''}"
    by code_simp
qed

theorem numeric_pattern_policy_witness:
  "applyFilters asciiLib (snd (processURL asciiLib freshProcessor (url_h ''/a/1'' [])))
       (Path (url_h ''/a/2'' [])) (urlParams (url_h ''/a/2'' []))
     = (True, snd (processURL asciiLib freshProcessor (url_h ''/a/1'' [])))
   \<and> map_of (hostPaths (urlMap (snd (processURL asciiLib freshProcessor (url_h ''/a/1'' []))))
               (urlHost (url_h ''/a/2'' []))) (Path (url_h ''/a/2'' [])) = None
   \<and> Split (Path (url_h ''/a/2'' [])) CHR ''/'' = [[], ''a'', ''2'']
   \<and> numericSegment ''2''
   \<and> createPattern ''/a/2'' = ''/a/'' @ [CHR 0x5C] @ ''d+''
   \<and> createPattern ''/a/2''
       \<in> patternsSeen (snd (processURL asciiLib freshProcessor (url_h ''/a/1'' [])))
   \<and> \<not> fst (processURL asciiLib (snd (processURL asciiLib freshProcessor (url_h ''/a/1'' [])))
             (url_h ''/a/2'' []))
   \<and> patternsSeen (snd (processURL asciiLib
         (snd (processURL asciiLib freshProcessor (url_h ''/a/1'' []))) (url_h ''/a/2'' [])))
       = patternsSeen (snd (processURL asciiLib freshProcessor (url_h ''/a/1'' [])))"
proof -
  let ?p1 = "snd (processURL asciiLib freshProcessor (url_h ''/a/1'' []))"
  let ?u = "url_h ''/a/2'' []"
  have h1: "applyFilters asciiLib ?p1 (Path ?u) (urlParams ?u) = (True, ?p1)" by code_simp
  have h2: "map_of (hostPaths (urlMap ?p1) (urlHost ?u)) (Path ?u) = None" by code_simp
  have pu: "Path ?u = ''/a/2''" by (simp add: url_h_def)
  have h3: "Split (Path ?u) CHR ''/'' = [[], ''a'', ''2'']" by code_simp
  have h4: "numericSegment ''2''" by (simp add: numericSegment_def)
  have h5: "\<forall>j. 2 < j \<and> j < length (Split (Path ?u) CHR ''/'') \<longrightarrow>
                 \<not> numericSegment (Split (Path ?u) CHR ''/'' ! j)"
  proof (intro allI impI)
    fix j :: nat
    assume "2 < j \<and> j < length (Split (Path ?u) CHR ''/'')"
    then have False by (auto simp: h3)
    then show "\<not> numericSegment (Split (Path ?u) CHR ''/'' ! j)" by simp
  qed
  have h6: "createPattern ''/a/2'' \<in> patternsSeen ?p1" by code_simp
  have g: "Join (map generalize (take (Suc 2) [[], ''a'', ''2''])) ''/''
             = ''/a/'' @ [CHR 0x5C] @ ''d+''"
    by (simp add: generalize_def numericSegment_def digitWildcard_def metaChars_def)
  have hyp: "applyFilters asciiLib ?p1 (Path ?u) (urlParams ?u) = (True, ?p1)
     \<and> map_of (hostPaths (urlMap ?p1) (urlHost ?u)) (Path ?u) = None
     \<and> 0 < (2::nat) \<and> 2 < length (Split (Path ?u) CHR ''/'')
     \<and> numericSegment (Split (Path ?u) CHR ''/'' ! 2)
     \<and> (\<forall>j. 2 < j \<and> j < length (Split (Path ?u) CHR ''/'') \<longrightarrow>
              \<not> numericSegment (Split (Path ?u) CHR ''/'' ! j))"
    using h1 h2 h4 h5 by (simp add: h3)
  note c = numeric_pattern_policy[of asciiLib ?p1 ?u ?p1 2, THEN conjunct1, THEN mp, OF hyp]
  have c1: "createPattern ''/a/2'' = ''/a/'' @ [CHR 0x5C] @ ''d+''"
    using c g by (simp add: pu h3)
  have c2: "\<not> fst (processURL asciiLib ?p1 ?u)
            \<and> patternsSeen (snd (processURL asciiLib ?p1 ?u)) = patternsSeen ?p1"
    using c h6 by (simp add: pu)
  show ?thesis
    using h1 h2 h3 h4 h6 c1 c2 by simp
qed

section \<open>Enumerating the results\<close>

lemma pathResults_render: "pathResults host path l = map render (pathEntries host path l)"
  by (simp add: pathResults_def pathEntries_def)

lemma Results_render: "Results p = map render (retained p)"
  by (simp add: Results_def retained_def map_concat pathResults_render comp_def
        case_prod_unfold)

lemma Count_paths_eq:
  "Count_paths paths c =
     c + length (concat (map (\<lambda>(path, paramsList). pathResults host path paramsList) paths))"
  by (induction paths arbitrary: c) (auto simp: pathResults_def)

lemma Count_hosts_eq:
  "Count_hosts hosts c =
     c + length (concat (map (\<lambda>(host, paths).
               concat (map (\<lambda>(path, paramsList). pathResults host path paramsList) paths))
            hosts))"
proof (induction hosts arbitrary: c)
  case Nil
  then show ?case by simp
next
  case (Cons hp hosts)
  obtain host paths where hp: "hp = (host, paths)" by (cases hp)
  show ?case
    unfolding hp by (simp add: Cons.IH Count_paths_eq[of _ _ host])
qed

lemma Count_length_Results: "Count p = length (Results p)"
  by (simp add: Count_def Results_def Count_hosts_eq)

lemma writeLines_append:
  "writeLines wr w (xs @ ys) =
     (case writeLines wr w xs of Inl err \<Rightarrow> Inl err | Inr w' \<Rightarrow> writeLines wr w' ys)"
  by (induction xs arbitrary: w) (auto split: sum.splits)

lemma Write_params_eq:
  "Write_params wr w host path l =
     writeLines wr w (map (\<lambda>params. host @ path @ mapToQuery params) l)"
  by (induction l arbitrary: w) (auto split: sum.splits)

lemma Write_paths_eq:
  "Write_paths wr w host paths =
     writeLines wr w
       (concat (map (\<lambda>(path, paramsList). pathResults host path paramsList) paths))"
proof (induction paths arbitrary: w)
  case Nil
  then show ?case by simp
next
  case (Cons pl paths)
  obtain path l where pl: "pl = (path, l)" by (cases pl)
  show ?case
    unfolding pl
    by (auto simp: Cons.IH writeLines_append Write_params_eq pathResults_def split: sum.splits)
qed

lemma Write_hosts_eq:
  "Write_hosts wr w hosts =
     writeLines wr w
       (concat (map (\<lambda>(host, paths).
               concat (map (\<lambda>(path, paramsList). pathResults host path paramsList) paths))
            hosts))"
proof (induction hosts arbitrary: w)
  case Nil
  then show ?case by simp
next
  case (Cons hp hosts)
  obtain host paths where hp: "hp = (host, paths)" by (cases hp)
  show ?case
    unfolding hp
    by (auto simp: Cons.IH writeLines_append Write_paths_eq split: sum.splits)
qed

lemma WriteResults_writeLines: "WriteResults wr w p = writeLines wr w (Results p)"
  by (simp add: WriteResults_def Results_def Write_hosts_eq)

lemma writeLines_buffer:
  "writeLines bufferWriter w ss = Inr (w @ concat (map (\<lambda>s. s @ [CHR 0x0A]) ss))"
  by (induction ss arbitrary: w) (auto simp: Fprintln_def bufferWriter_def)

lemma image_mset_concat_map:
  "image_mset g (mset (concat (map f xs))) = sum_list (map (\<lambda>x. image_mset g (mset (f x))) xs)"
  by (induction xs) auto

lemma sum_list_perm:
  fixes g :: "'a \<Rightarrow> 'b multiset"
  assumes "mset xs = mset ys"
  shows "sum_list (map g xs) = sum_list (map g ys)"
proof -
  have "sum_list (map g xs) = sum_mset (image_mset g (mset xs))"
    by (simp add: sum_mset_sum_list[symmetric])
  also have "\<dots> = sum_mset (image_mset g (mset ys))" using assms by simp
  also have "\<dots> = sum_list (map g ys)" by (simp add: sum_mset_sum_list[symmetric])
  finally show ?thesis .
qed

lemma retained_keys:
  "image_mset entryKey (mset (retained p)) = sum_list (map hostKeys (urlMap p))"
proof -
  have h: "hostKeys = (\<lambda>hp. sum_list (map (pathKeys (fst hp)) (snd hp)))"
    by (simp add: fun_eq_iff hostKeys_def)
  have k: "pathKeys host = (\<lambda>pl. image_mset entryKey (mset (pathEntries host (fst pl) (snd pl))))"
    for host by (simp add: fun_eq_iff pathKeys_def)
  show ?thesis
    by (simp add: retained_def h k image_mset_concat_map case_prod_unfold)
qed

lemma pathKeys_same:
  assumes "list_all2 sameParams l l'"
  shows "pathKeys host (k, l) = pathKeys host (k, l')"
proof -
  have len: "length l = length l'" using assms by (rule list_all2_lengthD)
  have "map entryKey (map (\<lambda>params. (host, k, Some params)) l)
          = map entryKey (map (\<lambda>params. (host, k, Some params)) l')"
    using assms by (induction rule: list_all2_induct) (auto simp: sameParams_def)
  then have "map entryKey (pathEntries host k l) = map entryKey (pathEntries host k l')"
    using len by (simp add: pathEntries_def)
  then have "mset (map entryKey (pathEntries host k l)) = mset (map entryKey (pathEntries host k l'))"
    by simp
  then show ?thesis by (simp add: pathKeys_def)
qed

lemma hostKeys_same:
  assumes "samePaths al al'"
  shows "hostKeys (h, al) = hostKeys (h, al')"
proof -
  from assms obtain al'' where
    p: "mset al'' = mset al" and
    r: "list_all2 (\<lambda>(k, l) (k', l'). k = k' \<and> list_all2 sameParams l l') al'' al'"
    unfolding samePaths_def by blast
  have "map (pathKeys h) al'' = map (pathKeys h) al'"
    using r by (induction rule: list_all2_induct) (auto simp: pathKeys_same)
  then have "sum_list (map (pathKeys h) al'') = sum_list (map (pathKeys h) al')" by simp
  moreover have "sum_list (map (pathKeys h) al) = sum_list (map (pathKeys h) al'')"
    using p by (intro sum_list_perm) simp
  ultimately show ?thesis by (simp add: hostKeys_def)
qed

lemma sameStore_keys:
  assumes "sameStore (urlMap p) (urlMap p')"
  shows "image_mset entryKey (mset (retained p')) = image_mset entryKey (mset (retained p))"
proof -
  from assms obtain m'' where
    p: "mset m'' = mset (urlMap p)" and
    r: "list_all2 (\<lambda>(h, al) (h', al'). h = h' \<and> samePaths al al') m'' (urlMap p')"
    unfolding sameStore_def by blast
  have "map hostKeys m'' = map hostKeys (urlMap p')"
    using r by (induction rule: list_all2_induct) (auto simp: hostKeys_same)
  then have "sum_list (map hostKeys m'') = sum_list (map hostKeys (urlMap p'))" by simp
  moreover have "sum_list (map hostKeys (urlMap p)) = sum_list (map hostKeys m'')"
    using p by (intro sum_list_perm) simp
  ultimately show ?thesis by (simp add: retained_keys)
qed

lemma Count_retained: "Count p = size (mset (retained p))"
  by (simp add: Count_length_Results Results_render)

lemma sameStore_Count:
  assumes "sameStore (urlMap p) (urlMap p')"
  shows "Count p' = Count p"
proof -
  have "size (image_mset entryKey (mset (retained p'))) = size (image_mset entryKey (mset (retained p)))"
    using sameStore_keys[OF assms] by simp
  then show ?thesis by (simp add: Count_retained)
qed


text \<open>
  C10. In every processor state, reachable or not: \<open>Count\<close> is the number of strings
  \<open>Results\<close> returns; \<open>Results\<close> is the rendering of the retained combinations;
  \<open>WriteResults\<close> writes the strings of \<open>Results\<close> in order, one per line, stopping at
  the first write that fails, and into a buffer it writes exactly those lines. Since Go
  may visit a map in a different order at each call: for any other visiting order of
  the same store (\<open>sameStore\<close>), the count and the multiset of retained (host, path,
  parameter set) combinations are the same.
\<close>

theorem enumerations_agree:
  "Count p = length (Results p)
   \<and> Results p = map render (retained p)
   \<and> WriteResults wr w p = writeLines wr w (Results p)
   \<and> WriteResults bufferWriter b p = Inr (b @ concat (map (\<lambda>s. s @ [CHR 0x0A]) (Results p)))
   \<and> (sameStore (urlMap p) (urlMap p') \<longrightarrow>
        Count p' = Count p
        \<and> image_mset entryKey (mset (retained p')) = image_mset entryKey (mset (retained p)))"
proof (intro conjI impI)
  show "Count p = length (Results p)" by (rule Count_length_Results)
  show "Results p = map render (retained p)" by (rule Results_render)
  show "WriteResults wr w p = writeLines wr w (Results p)" by (rule WriteResults_writeLines)
  show "WriteResults bufferWriter b p = Inr (b @ concat (map (\<lambda>s. s @ [CHR 0x0A]) (Results p)))"
    unfolding WriteResults_writeLines by (rule writeLines_buffer)
next
  assume "sameStore (urlMap p) (urlMap p')"
  then show "Count p' = Count p" by (rule sameStore_Count)
next
  assume "sameStore (urlMap p) (urlMap p')"
  then show "image_mset entryKey (mset (retained p')) = image_mset entryKey (mset (retained p))"
    by (rule sameStore_keys)
qed

lemma exampleStore_urlMap:
  "urlMap exampleStore = [(''http://h'', [(''/p'', [[(''a'', ''1'')], [(''a'', ''1''), (''b'', ''2'')]])])]"
  by code_simp

lemma exampleStore_same: "sameStore (urlMap exampleStore) (urlMap exampleStore_reordered)"
proof -
  have p: "samePaths [(''/p'', [[(''a'', ''1'')], [(''a'', ''1''), (''b'', ''2'')]])]
                     [(''/p'', [[(''a'', ''1'')], [(''b'', ''2''), (''a'', ''1'')]])]"
    unfolding samePaths_def
    by (rule exI[of _ "[(''/p'', [[(''a'', ''1'')], [(''a'', ''1''), (''b'', ''2'')]])]"])
       (simp add: sameParams_def)
  show ?thesis
    unfolding sameStore_def exampleStore_urlMap exampleStore_reordered_def
    by (rule exI[of _ "[(''http://h'', [(''/p'', [[(''a'', ''1'')], [(''a'', ''1''), (''b'', ''2'')]])])]"])
       (simp add: p)
qed

theorem enumerations_agree_witness:
  "Results exampleStore = [''http://h/p?a=1'', ''http://h/p?a=1&b=2'']
   \<and> Count exampleStore = 2
   \<and> WriteResults bufferWriter [] exampleStore
       = Inr (''http://h/p?a=1'' @ [CHR 0x0A] @ ''http://h/p?a=1&b=2'' @ [CHR 0x0A])
   \<and> sameStore (urlMap exampleStore) (urlMap exampleStore_reordered)
   \<and> Results exampleStore_reordered = [''http://h/p?a=1'', ''http://h/p?b=2&a=1'']
   \<and> Count exampleStore_reordered = 2"
proof -
  have r: "Results exampleStore = [''http://h/p?a=1'', ''http://h/p?a=1&b=2'']" by code_simp
  have r': "Results exampleStore_reordered = [''http://h/p?a=1'', ''http://h/p?b=2&a=1'']"
    by code_simp
  note e = enumerations_agree[of exampleStore bufferWriter "[]" "[]" exampleStore_reordered]
  have c: "Count exampleStore = 2"
    using e[THEN conjunct1] by (simp add: r)
  have w: "WriteResults bufferWriter [] exampleStore
       = Inr (''http://h/p?a=1'' @ [CHR 0x0A] @ ''http://h/p?a=1&b=2'' @ [CHR 0x0A])"
    using e[THEN conjunct2, THEN conjunct2, THEN conjunct2, THEN conjunct1] by (simp add: r)
  have c': "Count exampleStore_reordered = 2"
    using e[THEN conjunct2, THEN conjunct2, THEN conjunct2, THEN conjunct2, THEN mp,
            OF exampleStore_same, THEN conjunct1] c by simp
  show ?thesis
    using r c w exampleStore_same r' c' by simp
qed

section \<open>Unrecognized filter names\<close>

lemma Has_NewRegistry: "Has NewRegistry name = isValidFilter name"
  by (auto simp: Has_def NewRegistry_def Register_def isValidFilter_def)

lemma userFilterNames_ok:
  "\<not> list_ex unrecognizedFilter fs \<Longrightarrow>
   userFilterNames NewRegistry fs acc =
     Inr (acc @ map normalizeFilterName (filter (\<lambda>f. \<not> specialFilter f) fs))"
  by (induction fs arbitrary: acc)
     (auto simp: Has_NewRegistry unrecognizedFilter_def specialFilter_def Let_def)

lemma userFilterNames_error:
  "list_ex unrecognizedFilter fs \<Longrightarrow>
   userFilterNames NewRegistry fs acc = Inl (InvalidFilter (hd (filter unrecognizedFilter fs)))"
  by (induction fs arbitrary: acc)
     (auto simp: Has_NewRegistry unrecognizedFilter_def specialFilter_def Let_def)

lemma userFilters_eq:
  "userFilters fs acc =
     acc @ map normalizeFilterName
             (filter (\<lambda>f. \<not> specialFilter f \<and> \<not> unrecognizedFilter f) fs)"
  by (induction fs arbitrary: acc)
     (auto simp: unrecognizedFilter_def specialFilter_def Let_def)

lemma New_eq:
  "New L cfg =
     (case userFilterNames NewRegistry (CleanArgs L (Filters_cfg cfg))
             ((if \<not> list_ex (\<lambda>f. f = ''keepcontent'') (CleanArgs L (Filters_cfg cfg))
               then [''removecontent''] else [])
              @ (if \<not> list_ex (\<lambda>f. f = ''allexts'') (CleanArgs L (Filters_cfg cfg))
                 then (if IsWhitelistMode cfg then [''whitelist''] else [''blacklist''])
                 else [])) of
        Inl err \<Rightarrow> Inl err
      | Inr activeNames \<Rightarrow>
          Inr \<lparr>config = cfg, urlMap_cli = [], paramsSeen_cli = {}, patternsSeen_cli = {},
               activeFilters = collectFilters NewRegistry activeNames [],
               filterMeta = Some \<lparr>Strict = list_ex (\<lambda>f. f = ''hasext'' \<or> f = ''noext'')
                                              (CleanArgs L (Filters_cfg cfg)),
                                   ExtList = GetExtList cfg, VulnParams = vulnParams\<rparr>,
               registry = NewRegistry, removeContent_prefixes = []\<rparr>)"
  by (simp add: New_def URLProcessor_setupFilters_def Let_def split: sum.splits)

lemma filters_NewProcessor:
  "filters (NewProcessor L (Some options)) =
     (if list_ex (\<lambda>f. f = ''keepcontent'') (cleanArgs L (Filters options)) then []
      else [''removecontent''])
     @ (if list_ex (\<lambda>f. f = ''allexts'') (cleanArgs L (Filters options)) then []
        else if Whitelist options \<noteq> [] then [''whitelist''] else [''blacklist''])
     @ map normalizeFilterName
         (filter (\<lambda>f. \<not> specialFilter f \<and> \<not> unrecognizedFilter f)
            (cleanArgs L (Filters options)))"
  by (simp add: NewProcessor_def setupFilters_def Let_def userFilters_eq)


text \<open>
  C5, as the code has it. The constructor of the command-line processor
  (\<open>processor.New\<close>) fails with the error "invalid filter", naming the first
  unrecognized name of the cleaned filter list, exactly when that list holds an
  unrecognized name; otherwise it returns a processor. The constructor of \<open>uro.go\<close>
  (\<open>NewProcessor\<close>) has no error result: its filter chain is the default filters
  followed by the normalized names of the cleaned list that are recognized, so an
  unrecognized name is left out.
\<close>

theorem unrecognized_filter_policy:
  "(list_ex unrecognizedFilter (CleanArgs L (Filters_cfg cfg)) \<longrightarrow>
      New L cfg
        = Inl (InvalidFilter (hd (filter unrecognizedFilter (CleanArgs L (Filters_cfg cfg))))))
   \<and> (\<not> list_ex unrecognizedFilter (CleanArgs L (Filters_cfg cfg)) \<longrightarrow>
        (\<exists>up. New L cfg = Inr up))
   \<and> filters (NewProcessor L (Some options)) =
       (if list_ex (\<lambda>f. f = ''keepcontent'') (cleanArgs L (Filters options)) then []
        else [''removecontent''])
       @ (if list_ex (\<lambda>f. f = ''allexts'') (cleanArgs L (Filters options)) then []
          else if Whitelist options \<noteq> [] then [''whitelist''] else [''blacklist''])
       @ map normalizeFilterName
           (filter (\<lambda>f. \<not> specialFilter f \<and> \<not> unrecognizedFilter f)
              (cleanArgs L (Filters options)))"
proof (intro conjI impI)
  assume "list_ex unrecognizedFilter (CleanArgs L (Filters_cfg cfg))"
  then show "New L cfg
        = Inl (InvalidFilter (hd (filter unrecognizedFilter (CleanArgs L (Filters_cfg cfg)))))"
    unfolding New_eq by (simp add: userFilterNames_error)
next
  assume "\<not> list_ex unrecognizedFilter (CleanArgs L (Filters_cfg cfg))"
  then show "\<exists>up. New L cfg = Inr up"
    unfolding New_eq by (simp add: userFilterNames_ok)
next
  show "filters (NewProcessor L (Some options)) =
       (if list_ex (\<lambda>f. f = ''keepcontent'') (cleanArgs L (Filters options)) then []
        else [''removecontent''])
       @ (if list_ex (\<lambda>f. f = ''allexts'') (cleanArgs L (Filters options)) then []
          else if Whitelist options \<noteq> [] then [''whitelist''] else [''blacklist''])
       @ map normalizeFilterName
           (filter (\<lambda>f. \<not> specialFilter f \<and> \<not> unrecognizedFilter f)
              (cleanArgs L (Filters options)))"
    by (rule filters_NewProcessor)
qed

lemma bogus_CleanArgs: "CleanArgs asciiLib (Filters_cfg bogusConfig) = [''vuln'', ''bogus'']"
  by code_simp

lemma bogus_cleanArgs: "cleanArgs asciiLib (Filters bogusOptions) = [''vuln'', ''bogus'']"
  by code_simp

lemma bogus_unrecognized: "unrecognizedFilter ''bogus'' \<and> \<not> unrecognizedFilter ''vuln''"
  by code_simp

theorem unrecognized_filter_policy_witness:
  "list_ex unrecognizedFilter (CleanArgs asciiLib (Filters_cfg bogusConfig))
   \<and> New asciiLib bogusConfig = Inl (InvalidFilter ''bogus'')
   \<and> filters (NewProcessor asciiLib (Some bogusOptions))
       = [''removecontent'', ''blacklist'', ''vuln'']"
proof -
  have h: "list_ex unrecognizedFilter (CleanArgs asciiLib (Filters_cfg bogusConfig))"
    by (simp add: bogus_CleanArgs bogus_unrecognized)
  have w: "Whitelist bogusOptions = []" by (simp add: bogusOptions_def)
  have s: "\<not> specialFilter ''vuln''" by code_simp
  note t = unrecognized_filter_policy[of asciiLib bogusConfig bogusOptions]
  have a: "New asciiLib bogusConfig = Inl (InvalidFilter ''bogus'')"
    using t[THEN conjunct1, THEN mp, OF h] by (simp add: bogus_CleanArgs bogus_unrecognized)
  have b: "filters (NewProcessor asciiLib (Some bogusOptions))
       = [''removecontent'', ''blacklist'', ''vuln'']"
    using t[THEN conjunct2, THEN conjunct2]
    by (simp add: bogus_cleanArgs bogus_unrecognized w s normalizeFilterName_def)
  show ?thesis using h a b by simp
qed

text \<open>
  The claim fails on \<open>NewProcessor\<close>: with the filters \<open>vuln\<close> and \<open>bogus\<close>
  configured, the processor is built, \<open>bogus\<close> is not in its chain, and it processes
  lines.
\<close>

theorem unrecognized_filter_counterexample:
  "''bogus'' \<in> set (cleanArgs asciiLib (Filters bogusOptions))
   \<and> \<not> specialFilter ''bogus'' \<and> \<not> isValidFilter (normalizeFilterName ''bogus'')
   \<and> filters (NewProcessor asciiLib (Some bogusOptions))
       = [''removecontent'', ''blacklist'', ''vuln'']
   \<and> fst (Process asciiLib (NewProcessor asciiLib (Some bogusOptions)) ''http://h/p?id=5'')
   \<and> Results (snd (Process asciiLib (NewProcessor asciiLib (Some bogusOptions)) ''http://h/p?id=5''))
       = [''http://h/p?id=5'']"
  by code_simp

section \<open>Canonicalizing a line\<close>

lemma HasSuffix_iff: "HasSuffix s suf \<longleftrightarrow> suffix suf s"
  by (simp add: HasSuffix_def HasPrefix_iff suffix_to_prefix)

lemma TrimSuffix_append: "TrimSuffix (s @ suf) suf = s"
  by (simp add: TrimSuffix_def HasSuffix_iff suffix_def)

lemma TrimSuffix_none: "\<not> HasSuffix s suf \<Longrightarrow> TrimSuffix s suf = s"
  by (simp add: TrimSuffix_def)

lemma Process_cleanLine:
  "Process L p rawURL =
     (let r3 = (if \<not> keepSlash p then TrimSuffix (cleanLine L rawURL) ''/'' else cleanLine L rawURL)
      in if r3 = [] then (False, p)
         else (case url_Parse L r3 of
                 None \<Rightarrow> (False, p)
               | Some u \<Rightarrow> if Host u = [] then (False, p) else processURL L p u))"
  by (simp add: Process_def cleanLine_def Let_def)


text \<open>
  C9. \<open>Process\<close> sees a line only through \<open>cleanLine\<close>, the line with its invalid
  byte sequences replaced by the empty string and its surrounding white space trimmed:
  two lines with the same clean line are processed alike. Without the keep-slash option
  one trailing \<open>/\<close> is removed too: a line whose clean line is \<open>s/\<close> is processed
  like a line whose clean line is \<open>s\<close>. \<open>NormalizePath\<close> after \<open>SanitizeUTF8\<close>, of
  the command-line processor, computes the same string. On a fresh processor
  \<open>http://h/a/\<close> is processed like \<open>http://h/a\<close> and stored as \<open>http://h/a\<close>; with
  keep-slash set, \<open>http://h/a/\<close> and \<open>http://h/a\<close> are both kept, as the two paths
  \<open>/a/\<close> and \<open>/a\<close>.
\<close>

theorem canonical_line:
  "(cleanLine L r1 = cleanLine L r2 \<longrightarrow> Process L p r1 = Process L p r2)
   \<and> (\<not> keepSlash p \<and> cleanLine L r1 = cleanLine L r2 @ ''/''
        \<and> \<not> HasSuffix (cleanLine L r2) ''/'' \<longrightarrow> Process L p r1 = Process L p r2)
   \<and> NormalizePath L (SanitizeUTF8 L r1) k
       = (if k then cleanLine L r1 else TrimSuffix (cleanLine L r1) ''/'')
   \<and> TrimSuffix (s @ ''/'') ''/'' = s
   \<and> (\<not> HasSuffix s ''/'' \<longrightarrow> TrimSuffix s ''/'' = s)
   \<and> Process asciiLib freshProcessor ''http://h/a/'' = Process asciiLib freshProcessor ''http://h/a''
   \<and> Results (snd (Process asciiLib freshProcessor ''http://h/a/'')) = [''http://h/a'']
   \<and> (let r1 = Process asciiLib keepSlashProcessor ''http://h/a/'';
           r2 = Process asciiLib (snd r1) ''http://h/a''
       in keepSlash keepSlashProcessor \<and> fst r1 \<and> fst r2
          \<and> map fst (hostPaths (urlMap (snd r2)) ''http://h'') = [''/a/'', ''/a'']
          \<and> Results (snd r2) = [''http://h/a/'', ''http://h/a''])"
proof (intro conjI impI)
  assume "cleanLine L r1 = cleanLine L r2"
  then show "Process L p r1 = Process L p r2" by (simp add: Process_cleanLine)
next
  assume a: "\<not> keepSlash p \<and> cleanLine L r1 = cleanLine L r2 @ ''/''
        \<and> \<not> HasSuffix (cleanLine L r2) ''/''"
  then have "TrimSuffix (cleanLine L r1) ''/'' = cleanLine L r2"
    by (simp add: TrimSuffix_append)
  moreover have "TrimSuffix (cleanLine L r2) ''/'' = cleanLine L r2"
    using a by (simp add: TrimSuffix_none)
  ultimately show "Process L p r1 = Process L p r2"
    using a by (simp add: Process_cleanLine)
next
  show "NormalizePath L (SanitizeUTF8 L r1) k
       = (if k then cleanLine L r1 else TrimSuffix (cleanLine L r1) ''/'')"
    by (simp add: NormalizePath_def SanitizeUTF8_def cleanLine_def Let_def)
  show "TrimSuffix (s @ ''/'') ''/'' = s" by (rule TrimSuffix_append)
next
  assume "\<not> HasSuffix s ''/''"
  then show "TrimSuffix s ''/'' = s" by (rule TrimSuffix_none)
next
  show "Process asciiLib freshProcessor ''http://h/a/'' = Process asciiLib freshProcessor ''http://h/a''"
    by code_simp
  show "Results (snd (Process asciiLib freshProcessor ''http://h/a/'')) = [''http://h/a'']"
    by code_simp
  show "let r1 = Process asciiLib keepSlashProcessor ''http://h/a/'';
           r2 = Process asciiLib (snd r1) ''http://h/a''
       in keepSlash keepSlashProcessor \<and> fst r1 \<and> fst r2
          \<and> map fst (hostPaths (urlMap (snd r2)) ''http://h'') = [''/a/'', ''/a'']
          \<and> Results (snd r2) = [''http://h/a/'', ''http://h/a'']"
    by code_simp
qed

theorem canonical_line_witness:
  "\<not> keepSlash freshProcessor
   \<and> cleanLine asciiLib ('' http://h/a'' @ [CHR 0xFF] @ ''/ '') = ''http://h/a/''
   \<and> cleanLine asciiLib ''http://h/a'' = ''http://h/a''
   \<and> \<not> HasSuffix ''http://h/a'' ''/''
   \<and> Process asciiLib freshProcessor ('' http://h/a'' @ [CHR 0xFF] @ ''/ '')
       = Process asciiLib freshProcessor ''http://h/a''"
proof -
  have h1: "\<not> keepSlash freshProcessor" by code_simp
  have h2: "cleanLine asciiLib ('' http://h/a'' @ [CHR 0xFF] @ ''/ '') = ''http://h/a/''"
    by code_simp
  have h3: "cleanLine asciiLib ''http://h/a'' = ''http://h/a''" by code_simp
  have h4: "\<not> HasSuffix ''http://h/a'' ''/''" by code_simp
  have hyp: "\<not> keepSlash freshProcessor
     \<and> cleanLine asciiLib ('' http://h/a'' @ [CHR 0xFF] @ ''/ '')
         = cleanLine asciiLib ''http://h/a'' @ ''/''
     \<and> \<not> HasSuffix (cleanLine asciiLib ''http://h/a'') ''/''"
    using h1 h2 h3 h4 by simp
  note t = canonical_line[of asciiLib "'' http://h/a'' @ [CHR 0xFF] @ ''/ ''" "''http://h/a''"
      freshProcessor]
  from t[THEN conjunct2, THEN conjunct1, THEN mp, OF hyp] h1 h2 h3 h4
  show ?thesis by simp
qed

section \<open>The content filter\<close>

lemma HasPrefix_append: "HasPrefix s w \<longleftrightarrow> (\<exists>r. s = w @ r)"
  by (simp add: HasPrefix_iff prefix_def)

lemma not_digit_letters:
  "\<not> isDigitChar CHR ''p''" "\<not> isDigitChar CHR ''/''"
  by (simp_all add: isDigitChar_def)

lemma yearOrPage_sound:
  assumes "yearOrPage s1 = Some n1"
  shows "n1 \<le> length s1 \<and>
         (take n1 s1 = ''page'' \<or> take n1 s1 = ''pages''
          \<or> (length (take n1 s1) = 4 \<and> list_all isDigitChar (take n1 s1)))"
  using assms
  by (auto simp: yearOrPage_def HasPrefix_append split: if_splits)

lemma reContent_at_sound:
  assumes "reContent_at s = Some n"
  shows "n \<le> length s \<and> contentWord (take n s)"
proof (cases "HasPrefix s ''post'' \<or> HasPrefix s ''blog''")
  case True
  then show ?thesis using assms
    by (auto simp: reContent_at_def contentWord_def HasPrefix_append split: if_splits)
next
  case pb: False
  show ?thesis
  proof (cases "HasPrefix s ''docs''")
    case True
    then show ?thesis using assms pb
      by (auto simp: reContent_at_def contentWord_def HasPrefix_append)
  next
    case d: False
    show ?thesis
    proof (cases "HasPrefix s ''support/''")
      case True
      then show ?thesis using assms pb d
        by (auto simp: reContent_at_def contentWord_def HasPrefix_append)
    next
      case su: False
      have sl: "HasPrefix s ''/''" using assms pb d su
        by (auto simp: reContent_at_def split: if_splits)
      then obtain s1 where s: "s = CHR ''/'' # s1" by (auto simp: HasPrefix_append)
      from assms pb d su sl obtain n1 where
        y: "yearOrPage s1 = Some n1" and
        c: "HasPrefix (drop n1 s1) ''/''"
           "takeWhile isDigitChar (drop 1 (drop n1 s1)) \<noteq> []"
           "HasPrefix (drop (1 + length (takeWhile isDigitChar (drop 1 (drop n1 s1)))) (drop n1 s1)) ''/''"
        and n: "n = 1 + n1 + 1 + length (takeWhile isDigitChar (drop 1 (drop n1 s1))) + 1"
        unfolding s
        by (auto simp: reContent_at_def Let_def split: if_splits option.splits)
      from yearOrPage_sound[OF y] have n1: "n1 \<le> length s1" and
        yy: "take n1 s1 = ''page'' \<or> take n1 s1 = ''pages''
          \<or> (length (take n1 s1) = 4 \<and> list_all isDigitChar (take n1 s1))" by auto
      from c(1) obtain r' where r: "drop n1 s1 = CHR ''/'' # r'" by (auto simp: HasPrefix_append)
      let ?ds = "takeWhile isDigitChar r'"
      have ds: "?ds \<noteq> []" using c(2) r by simp
      from c(3) r obtain rest where rest: "drop (length ?ds) r' = CHR ''/'' # rest"
        by (auto simp: HasPrefix_append)
      have r'eq: "r' = ?ds @ CHR ''/'' # rest"
        using rest append_take_drop_id[of "length ?ds" r']
        by (metis takeWhile_eq_take)
      have s1eq: "s1 = take n1 s1 @ CHR ''/'' # ?ds @ CHR ''/'' # rest"
        using r r'eq append_take_drop_id[of n1 s1] by metis
      have len: "n = length (CHR ''/'' # take n1 s1 @ CHR ''/'' # ?ds @ ''/'')"
        using n r n1 by simp
      have "s = (CHR ''/'' # take n1 s1 @ CHR ''/'' # ?ds @ ''/'') @ rest"
        unfolding s using s1eq by simp
      then have tk: "take n s = CHR ''/'' # take n1 s1 @ CHR ''/'' # ?ds @ ''/''"
        unfolding len by (metis append_eq_conv_conj)
      have dsd: "list_all isDigitChar ?ds"
        by (simp add: list_all_iff) (meson set_takeWhileD)
      have "contentWord (take n s)"
        unfolding tk contentWord_def
        using yy ds dsd
        by (intro disjI2) (rule exI[of _ "take n1 s1"], rule exI[of _ ?ds], simp)
      moreover have "n \<le> length s"
        using tk len by (metis length_take min.cobounded2 min_def order_refl take_all_iff nat_le_linear)
      ultimately show ?thesis by simp
    qed
  qed
qed

lemma takeWhile_digits_slash:
  "list_all isDigitChar ds \<Longrightarrow> takeWhile isDigitChar (ds @ CHR ''/'' # rest) = ds"
  by (induction ds) (auto simp: not_digit_letters)

lemma yearOrPage_complete:
  assumes "y = ''page'' \<or> y = ''pages'' \<or> (length y = 4 \<and> list_all isDigitChar y)"
  shows "yearOrPage (y @ CHR ''/'' # rest) = Some (length y)"
proof -
  consider (pg) "y = ''page''" | (pgs) "y = ''pages''"
    | (yr) "length y = 4 \<and> list_all isDigitChar y" using assms by blast
  then show ?thesis
  proof cases
    case pg
    then show ?thesis by (simp add: yearOrPage_def not_digit_letters)
  next
    case pgs
    then show ?thesis by (simp add: yearOrPage_def not_digit_letters)
  next
    case yr
    then show ?thesis by (simp add: yearOrPage_def)
  qed
qed

lemma reContent_at_complete:
  assumes w: "contentWord w" and p: "prefix w s"
  shows "\<exists>n. reContent_at s = Some n \<and> length w \<le> n"
proof -
  from p obtain r where s: "s = w @ r" by (auto simp: prefix_def)
  consider (post) "w = ''post'' \<or> w = ''posts'' \<or> w = ''blog'' \<or> w = ''blogs''"
    | (docs) "w = ''docs''" | (support) "w = ''support/''"
    | (slash) y ds where "w = ''/'' @ y @ ''/'' @ ds @ ''/''"
        "y = ''page'' \<or> y = ''pages'' \<or> (length y = 4 \<and> list_all isDigitChar y)"
        "ds \<noteq> []" "list_all isDigitChar ds"
    using w unfolding contentWord_def by blast
  then show ?thesis
  proof cases
    case post
    then show ?thesis unfolding s by (auto simp: reContent_at_def)
  next
    case docs
    then show ?thesis unfolding s by (simp add: reContent_at_def)
  next
    case support
    then show ?thesis unfolding s by (simp add: reContent_at_def)
  next
    case slash
    have s': "s = CHR ''/'' # y @ CHR ''/'' # ds @ CHR ''/'' # r"
      unfolding s slash(1) by simp
    have yp: "yearOrPage (y @ CHR ''/'' # ds @ CHR ''/'' # r) = Some (length y)"
      using slash(2) by (rule yearOrPage_complete)
    have tw: "takeWhile isDigitChar (ds @ CHR ''/'' # r) = ds"
      using slash(4) by (rule takeWhile_digits_slash)
    have "reContent_at s = Some (1 + length y + 1 + length ds + 1)"
      unfolding s' using yp tw slash(3)
      by (simp add: reContent_at_def Let_def)
    then show ?thesis unfolding slash(1) by simp
  qed
qed

lemma reContent_from_None:
  "reContent_from i s = None \<longleftrightarrow> (\<forall>k < length s. reContent_at (drop k s) = None)"
proof (induction s arbitrary: i)
  case Nil
  then show ?case by simp
next
  case (Cons c cs)
  show ?case
  proof (cases "reContent_at (c # cs)")
    case None
    have "(\<forall>k < length (c # cs). reContent_at (drop k (c # cs)) = None)
            = (\<forall>k < length cs. reContent_at (drop k cs) = None)"
    proof
      assume a: "\<forall>k < length (c # cs). reContent_at (drop k (c # cs)) = None"
      show "\<forall>k < length cs. reContent_at (drop k cs) = None"
      proof (intro allI impI)
        fix k assume "k < length cs"
        then have "Suc k < length (c # cs)" by simp
        with a have "reContent_at (drop (Suc k) (c # cs)) = None" by blast
        then show "reContent_at (drop k cs) = None" by simp
      qed
    next
      assume a: "\<forall>k < length cs. reContent_at (drop k cs) = None"
      show "\<forall>k < length (c # cs). reContent_at (drop k (c # cs)) = None"
      proof (intro allI impI)
        fix k assume k: "k < length (c # cs)"
        show "reContent_at (drop k (c # cs)) = None"
        proof (cases k)
          case 0
          then show ?thesis using None by simp
        next
          case (Suc k')
          then show ?thesis using a k by simp
        qed
      qed
    qed
    then show ?thesis using None Cons.IH[of "i + 1"] by simp
  next
    case (Some n)
    have "\<not> (\<forall>k < length (c # cs). reContent_at (drop k (c # cs)) = None)"
    proof
      assume a: "\<forall>k < length (c # cs). reContent_at (drop k (c # cs)) = None"
      from a[rule_format, of 0] have "reContent_at (drop 0 (c # cs)) = None" by simp
      with Some show False by simp
    qed
    then show ?thesis using Some by simp
  qed
qed

lemma reContent_from_Some:
  "reContent_from i s = Some (a, b) \<Longrightarrow>
     \<exists>k n. a = i + k \<and> b = i + k + n \<and> k < length s
           \<and> reContent_at (drop k s) = Some n
           \<and> (\<forall>k' < k. reContent_at (drop k' s) = None)"
proof (induction s arbitrary: i)
  case Nil
  then show ?case by simp
next
  case (Cons c cs)
  show ?case
  proof (cases "reContent_at (c # cs)")
    case (Some n)
    then have "a = i" "b = i + n" using Cons.prems by auto
    then show ?thesis using Some
      by (intro exI[of _ 0] exI[of _ n]) simp
  next
    case None
    then have "reContent_from (i + 1) cs = Some (a, b)" using Cons.prems by simp
    from Cons.IH[OF this] obtain k n where
      kn: "a = i + 1 + k" "b = i + 1 + k + n" "k < length cs"
          "reContent_at (drop k cs) = Some n"
          "\<forall>k' < k. reContent_at (drop k' cs) = None" by blast
    have "\<forall>k' < Suc k. reContent_at (drop k' (c # cs)) = None"
    proof (intro allI impI)
      fix k' assume k': "k' < Suc k"
      show "reContent_at (drop k' (c # cs)) = None"
      proof (cases k')
        case 0
        then show ?thesis using None by simp
      next
        case (Suc j)
        then show ?thesis using kn(5) k' by simp
      qed
    qed
    then show ?thesis using kn
      by (intro exI[of _ "Suc k"] exI[of _ n]) simp
  qed
qed

lemma FindStringIndex_None:
  "reContent_FindStringIndex path = None \<longleftrightarrow>
     \<not> (\<exists>u w v. path = u @ w @ v \<and> contentWord w)"
proof
  assume n: "reContent_FindStringIndex path = None"
  show "\<not> (\<exists>u w v. path = u @ w @ v \<and> contentWord w)"
  proof
    assume "\<exists>u w v. path = u @ w @ v \<and> contentWord w"
    then obtain u w v where d: "path = u @ w @ v" "contentWord w" by blast
    have wne: "w \<noteq> []" using d(2) by (auto simp: contentWord_def)
    have k: "length u < length path" using d(1) wne by simp
    have "prefix w (drop (length u) path)" using d(1) by simp
    from reContent_at_complete[OF d(2) this] obtain m where
      "reContent_at (drop (length u) path) = Some m" by blast
    moreover have "reContent_at (drop (length u) path) = None"
      using n k unfolding reContent_FindStringIndex_def reContent_from_None by blast
    ultimately show False by simp
  qed
next
  assume a: "\<not> (\<exists>u w v. path = u @ w @ v \<and> contentWord w)"
  show "reContent_FindStringIndex path = None"
  proof (rule ccontr)
    assume "reContent_FindStringIndex path \<noteq> None"
    then obtain i j where "reContent_from 0 path = Some (i, j)"
      unfolding reContent_FindStringIndex_def by auto
    from reContent_from_Some[OF this] obtain k n where
      kn: "reContent_at (drop k path) = Some n" by blast
    from reContent_at_sound[OF kn] have
      c: "contentWord (take n (drop k path))" by simp
    have "take n (drop k path) @ drop n (drop k path) = drop k path"
      by (rule append_take_drop_id)
    then have "path = take k path @ take n (drop k path) @ drop n (drop k path)"
      by (simp only: append_take_drop_id)
    with c a show False by blast
  qed
qed

lemma FindStringIndex_Some:
  assumes "reContent_FindStringIndex path = Some (i, j)"
  shows "\<exists>w. contentWord w \<and> take j path = take i path @ w \<and> i + length w = j
             \<and> j \<le> length path
             \<and> (\<forall>u' w' v'. path = u' @ w' @ v' \<and> contentWord w' \<longrightarrow>
                    i \<le> length u' \<and> (length u' = i \<longrightarrow> length w' \<le> length w))"
proof -
  from assms have "reContent_from 0 path = Some (i, j)"
    by (simp add: reContent_FindStringIndex_def)
  from reContent_from_Some[OF this] obtain n where
    kn: "j = i + n" "i < length path" "reContent_at (drop i path) = Some n"
        "\<forall>k' < i. reContent_at (drop k' path) = None" by auto
  from reContent_at_sound[OF kn(3)] have
    n: "n \<le> length (drop i path)" and c: "contentWord (take n (drop i path))" by auto
  define w where "w = take n (drop i path)"
  have cw: "contentWord w" using c by (simp add: w_def)
  have lw: "length w = n" using n by (simp add: w_def)
  have t: "take j path = take i path @ w"
    unfolding kn(1) w_def by (simp add: take_add)
  have jl: "j \<le> length path" using n kn(1,2) by simp
  have left: "\<forall>u' w' v'. path = u' @ w' @ v' \<and> contentWord w' \<longrightarrow>
                    i \<le> length u' \<and> (length u' = i \<longrightarrow> length w' \<le> length w)"
  proof (intro allI impI)
    fix u' w' v' assume d: "path = u' @ w' @ v' \<and> contentWord w'"
    then have p: "prefix w' (drop (length u') path)" by simp
    from reContent_at_complete[OF _ p] d obtain m where
      m: "reContent_at (drop (length u') path) = Some m" "length w' \<le> m" by blast
    have "\<not> length u' < i" using kn(4) m(1) by auto
    then have 1: "i \<le> length u'" by simp
    have 2: "length u' = i \<longrightarrow> length w' \<le> length w"
      using m kn(3) lw by auto
    from 1 2 show "i \<le> length u' \<and> (length u' = i \<longrightarrow> length w' \<le> length w)" by simp
  qed
  have ij: "i + length w = j" using lw kn(1) by simp
  show ?thesis
  proof (intro exI[of _ w] conjI)
    show "contentWord w" by (rule cw)
    show "take j path = take i path @ w" by (rule t)
    show "i + length w = j" by (rule ij)
    show "j \<le> length path" by (rule jl)
    show "\<forall>u' w' v'. path = u' @ w' @ v' \<and> contentWord w' \<longrightarrow>
                    i \<le> length u' \<and> (length u' = i \<longrightarrow> length w' \<le> length w)"
      by (rule left)
  qed
qed

text \<open>
  C2, as the code has it. The content filter, \<open>checkContent\<close> of \<open>uro.go\<close> and
  \<open>RemoveContentFilter.Apply\<close> of the filter package, rejects a path exactly when (a)
  a segment of the path has more than 3 hyphens or (b) a prefix in the cache is a
  prefix of the path, and then leaves the cache as it is. Otherwise it keeps the path,
  and if the path contains a content word it appends to the cache the path up to the
  end of the match \<open>FindStringIndex\<close> returns. \<open>FindStringIndex\<close> returns nothing
  exactly when the path contains no content word; otherwise it returns the leftmost
  place where a content word starts and the end of the longest content word there.
\<close>

theorem content_filter_policy:
  "checkContent p path =
     (if list_ex (\<lambda>part. 3 < strings_Count part CHR ''-'') (Split path CHR ''/'')
         \<or> list_ex (\<lambda>pre. prefix pre path) (contentPrefixes p)
      then (False, p)
      else (True, case reContent_FindStringIndex path of
                    None \<Rightarrow> p
                  | Some (i, j) \<Rightarrow> p\<lparr>contentPrefixes := contentPrefixes p @ [take j path]\<rparr>))
   \<and> RemoveContentFilter_Apply cache path =
     (if list_ex (\<lambda>part. 3 < strings_Count part CHR ''-'') (Split path CHR ''/'')
         \<or> list_ex (\<lambda>pre. prefix pre path) cache
      then (False, cache)
      else (True, case reContent_FindStringIndex path of
                    None \<Rightarrow> cache
                  | Some (i, j) \<Rightarrow> cache @ [take j path]))
   \<and> (reContent_FindStringIndex path = None \<longleftrightarrow>
        \<not> (\<exists>u w v. path = u @ w @ v \<and> contentWord w))
   \<and> (\<forall>i j. reContent_FindStringIndex path = Some (i, j) \<longrightarrow>
        (\<exists>w. contentWord w \<and> take j path = take i path @ w \<and> i + length w = j
             \<and> j \<le> length path
             \<and> (\<forall>u' w' v'. path = u' @ w' @ v' \<and> contentWord w' \<longrightarrow>
                    i \<le> length u' \<and> (length u' = i \<longrightarrow> length w' \<le> length w))))"
proof (intro conjI allI impI)
  have e: "(\<lambda>pre. HasPrefix path pre) = (\<lambda>pre. prefix pre path)"
    by (simp add: fun_eq_iff HasPrefix_iff)
  show "checkContent p path =
     (if list_ex (\<lambda>part. 3 < strings_Count part CHR ''-'') (Split path CHR ''/'')
         \<or> list_ex (\<lambda>pre. prefix pre path) (contentPrefixes p)
      then (False, p)
      else (True, case reContent_FindStringIndex path of
                    None \<Rightarrow> p
                  | Some (i, j) \<Rightarrow> p\<lparr>contentPrefixes := contentPrefixes p @ [take j path]\<rparr>))"
    unfolding checkContent_def e by (simp split: option.splits)
  show "RemoveContentFilter_Apply cache path =
     (if list_ex (\<lambda>part. 3 < strings_Count part CHR ''-'') (Split path CHR ''/'')
         \<or> list_ex (\<lambda>pre. prefix pre path) cache
      then (False, cache)
      else (True, case reContent_FindStringIndex path of
                    None \<Rightarrow> cache
                  | Some (i, j) \<Rightarrow> cache @ [take j path]))"
    unfolding RemoveContentFilter_Apply_def e by (simp split: option.splits)
  show "reContent_FindStringIndex path = None \<longleftrightarrow>
        \<not> (\<exists>u w v. path = u @ w @ v \<and> contentWord w)"
    by (rule FindStringIndex_None)
next
  fix i j
  assume "reContent_FindStringIndex path = Some (i, j)"
  then show "\<exists>w. contentWord w \<and> take j path = take i path @ w \<and> i + length w = j
             \<and> j \<le> length path
             \<and> (\<forall>u' w' v'. path = u' @ w' @ v' \<and> contentWord w' \<longrightarrow>
                    i \<le> length u' \<and> (length u' = i \<longrightarrow> length w' \<le> length w))"
    by (rule FindStringIndex_Some)
qed

theorem content_filter_policy_witness:
  "reContent_FindStringIndex ''/blog/x'' = Some (1, 5)
   \<and> checkContent freshProcessor ''/blog/x''
       = (True, freshProcessor\<lparr>contentPrefixes := [''/blog'']\<rparr>)
   \<and> checkContent (freshProcessor\<lparr>contentPrefixes := [''/blog'']\<rparr>) ''/blog/y''
       = (False, freshProcessor\<lparr>contentPrefixes := [''/blog'']\<rparr>)
   \<and> checkContent freshProcessor ''/a-b-c-d-e'' = (False, freshProcessor)
   \<and> RemoveContentFilter_Apply [] ''/x/2020/12/abc'' = (True, [''/x/2020/12/''])"
proof -
  have f: "reContent_FindStringIndex ''/blog/x'' = Some (1, 5)" by code_simp
  have g: "reContent_FindStringIndex ''/x/2020/12/abc'' = Some (2, 11)" by code_simp
  have c0: "contentPrefixes freshProcessor = []" by code_simp
  have a: "checkContent freshProcessor ''/blog/x''
       = (True, freshProcessor\<lparr>contentPrefixes := [''/blog'']\<rparr>)"
    using content_filter_policy[of freshProcessor "''/blog/x''" "[]", THEN conjunct1]
    by (simp add: f c0 strings_Count_def)
  have b: "checkContent (freshProcessor\<lparr>contentPrefixes := [''/blog'']\<rparr>) ''/blog/y''
       = (False, freshProcessor\<lparr>contentPrefixes := [''/blog'']\<rparr>)"
    using content_filter_policy[of "freshProcessor\<lparr>contentPrefixes := [''/blog'']\<rparr>"
        "''/blog/y''" "[]", THEN conjunct1]
    by (simp add: strings_Count_def)
  have c: "checkContent freshProcessor ''/a-b-c-d-e'' = (False, freshProcessor)"
    using content_filter_policy[of freshProcessor "''/a-b-c-d-e''" "[]", THEN conjunct1]
    by (simp add: strings_Count_def)
  have d: "RemoveContentFilter_Apply [] ''/x/2020/12/abc'' = (True, [''/x/2020/12/''])"
    using content_filter_policy[of freshProcessor "''/x/2020/12/abc''" "[]",
        THEN conjunct2, THEN conjunct1]
    by (simp add: g strings_Count_def)
  show ?thesis using f a b c d by simp
qed

text \<open>
  The claim fails on case (c): the path \<open>/blog\<close> matches the content pattern, no
  segment has more than 3 hyphens and the cache is empty, and the filter keeps it; the
  line \<open>http://h/blog\<close> is kept by a fresh processor and is among its results.
\<close>

theorem content_filter_counterexample:
  "reContent_FindStringIndex ''/blog'' = Some (1, 5)
   \<and> fst (checkContent freshProcessor ''/blog'')
   \<and> fst (RemoveContentFilter_Apply [] ''/blog'')
   \<and> fst (Process asciiLib freshProcessor ''http://h/blog'')
   \<and> Results (snd (Process asciiLib freshProcessor ''http://h/blog'')) = [''http://h/blog'']"
  by code_simp

end
